theory Spec2Isabelle
  imports Main "HOL-Library.Sublist"
begin

section \<open>Python strings\<close>

text \<open>
  A Python \<open>str\<close> is a sequence of Unicode code points, so a string is modelled as a
  list of code points (natural numbers) rather than of bytes. \<open>cp\<close> reads an ASCII
  literal as such a string.
\<close>

type_synonym codepoint = nat
type_synonym str = "codepoint list"

definition cp :: "string \<Rightarrow> str" where
  "cp s = map of_char s"

abbreviation LF :: codepoint where "LF \<equiv> 10"
abbreviation SPACE :: codepoint where "SPACE \<equiv> 32"
abbreviation DOT :: codepoint where "DOT \<equiv> 46"
abbreviation BACKSLASH :: codepoint where "BACKSLASH \<equiv> 92"
abbreviation LOWER_N :: codepoint where "LOWER_N \<equiv> 110"

text \<open>
  The code points that \<open>str.split()\<close> and \<open>str.strip()\<close> treat as whitespace
  (those for which \<open>str.isspace\<close> holds): U+0009..U+000D, U+001C..U+0020, U+0085,
  U+00A0, U+1680, U+2000..U+200A, U+2028, U+2029, U+202F, U+205F and U+3000.
\<close>

definition isspace :: "codepoint \<Rightarrow> bool" where
  "isspace c \<longleftrightarrow>
     (9 \<le> c \<and> c \<le> 13) \<or> (28 \<le> c \<and> c \<le> 32) \<or> c = 133 \<or> c = 160 \<or> c = 5760 \<or>
     (8192 \<le> c \<and> c \<le> 8202) \<or> c = 8232 \<or> c = 8233 \<or> c = 8239 \<or> c = 8287 \<or> c = 12288"

text \<open>
  \<open>s.replace(old, new)\<close>: every occurrence of \<open>old\<close>, found from left to right
  and not overlapping an earlier one, is replaced. With an empty \<open>old\<close> Python puts
  \<open>new\<close> before every character and at the end.
\<close>

function str_replace :: "str \<Rightarrow> str \<Rightarrow> str \<Rightarrow> str" where
  "str_replace old new [] = (if old = [] then new else [])"
| "str_replace old new (c # cs) =
     (if old = [] then new @ c # str_replace old new cs
      else if prefix old (c # cs) then new @ str_replace old new (drop (length old) (c # cs))
      else c # str_replace old new cs)"
  by pat_completeness auto
termination
  by (relation "measure (\<lambda>(old, new, s). length s)") auto

text \<open>
  \<open>s.split(sep)\<close> for a separator string: the pieces between the occurrences of
  \<open>sep\<close>, empty pieces included, so the result is never the empty list. Every call in
  the source passes a non-empty literal; Python raises \<open>ValueError\<close> on an empty
  separator, where this function returns the whole string as its only piece.
\<close>

function str_split :: "str \<Rightarrow> str \<Rightarrow> str list" where
  "str_split sep [] = [[]]"
| "str_split sep (c # cs) =
     (if sep \<noteq> [] \<and> prefix sep (c # cs) then [] # str_split sep (drop (length sep) (c # cs))
      else (case str_split sep cs of [] \<Rightarrow> [[c]] | p # ps \<Rightarrow> (c # p) # ps))"
  by pat_completeness auto
termination
  by (relation "measure (\<lambda>(sep, s). length s)") auto

text \<open>
  \<open>s.split()\<close> without a separator: the maximal runs of non-whitespace characters;
  leading and trailing whitespace yields no empty word.
\<close>

function str_split_ws :: "str \<Rightarrow> str list" where
  "str_split_ws [] = []"
| "str_split_ws (c # cs) =
     (if isspace c then str_split_ws cs
      else takeWhile (\<lambda>x. \<not> isspace x) (c # cs) # str_split_ws (dropWhile (\<lambda>x. \<not> isspace x) cs))"
  by pat_completeness auto
termination
  by (relation "measure length") (auto simp: length_dropWhile_le le_imp_less_Suc)

text \<open>\<open>sep.join(xs)\<close> and \<open>s.strip()\<close>.\<close>

fun str_join :: "str \<Rightarrow> str list \<Rightarrow> str" where
  "str_join sep [] = []"
| "str_join sep [x] = x"
| "str_join sep (x # y # ys) = x @ sep @ str_join sep (y # ys)"

definition str_strip :: "str \<Rightarrow> str" where
  "str_strip s = rev (dropWhile isspace (rev (dropWhile isspace s)))"

section \<open>TranscriptProcessor.format_transcript_text\<close>

text \<open>
  \<^verbatim>\<open>
  text = text.replace('\\n', '\n')
  text = ' '.join(text.split())
  sentences = [s.strip() for s in text.split('.') if s.strip()]
  formatted_text = '.\n\n'.join(sentences) + '.'
  \<close>
  The first argument of \<open>replace\<close> is the two-character string backslash, \<open>n\<close>.
\<close>

definition format_transcript_text :: "str \<Rightarrow> str" where
  "format_transcript_text text0 =
    (let text1 = str_replace [BACKSLASH, LOWER_N] [LF] text0;
         text2 = str_join [SPACE] (str_split_ws text1);
         sentences = [str_strip s. s \<leftarrow> str_split [DOT] text2, str_strip s \<noteq> []]
     in str_join [DOT, LF, LF] sentences @ [DOT])"

section \<open>Storage keys: \<open>create_filename\<close> of the two storage handlers\<close>

abbreviation AMP :: codepoint where "AMP \<equiv> 38"
abbreviation SLASH :: codepoint where "SLASH \<equiv> 47"
abbreviation LESS :: codepoint where "LESS \<equiv> 60"
abbreviation GREATER :: codepoint where "GREATER \<equiv> 62"
abbreviation QUESTION :: codepoint where "QUESTION \<equiv> 63"

text \<open>
  \<open>s.rfind(c)\<close> for a one-character \<open>c\<close>: the last index of \<open>c\<close>, or \<open>-1\<close>.
\<close>

definition rfind :: "codepoint \<Rightarrow> str \<Rightarrow> int" where
  "rfind c s =
     (if c \<in> set s then int (length s) - 1 - int (length (takeWhile (\<lambda>x. x \<noteq> c) (rev s))) else - 1)"

text \<open>
  \<open>os.path.splitext\<close> of the standard library, in its POSIX form (separator \<open>/\<close>, no
  alternative separator): the extension starts at the last dot of the last path
  component, unless that component consists of leading dots only up to it.
\<close>

definition splitext :: "str \<Rightarrow> str \<times> str" where
  "splitext p =
    (let sepIndex = rfind SLASH p; dotIndex = rfind DOT p in
     if dotIndex > sepIndex \<and>
        list_ex (\<lambda>c. c \<noteq> DOT) (take (nat (dotIndex - (sepIndex + 1))) (drop (nat (sepIndex + 1)) p))
     then (take (nat dotIndex) p, drop (nat dotIndex) p)
     else (p, []))"

text \<open>
  \<open>SupabaseStorageHandler.create_filename\<close>. \<open>lower\<close> stands for \<open>str.lower\<close>, whose
  Unicode case table is not part of the repository.
\<close>

definition SupabaseStorageHandler_create_filename ::
  "(str \<Rightarrow> str) \<Rightarrow> str \<Rightarrow> str \<Rightarrow> str \<Rightarrow> str \<Rightarrow> str \<Rightarrow> str" where
  "SupabaseStorageHandler_create_filename lower company_name event_date event_title doc_type original_filename =
    (let safe_company =
           str_replace (cp ''-'') (cp ''_'') (str_replace (cp '' '') (cp ''_'') (lower company_name));
         safe_date = str_replace (cp ''-'') [] event_date;
         safe_title = take 30 (str_replace (cp '' '') (cp ''_'') (lower event_title));
         ext0 = snd (splitext original_filename);
         ext = (if ext0 = [] then cp ''.pdf'' else ext0)
     in safe_company @ cp ''/'' @ doc_type @ cp ''/'' @
        safe_company @ cp ''_'' @ safe_date @ cp ''_'' @ doc_type @ ext)"

text \<open>
  \<open>S3Handler.create_filename\<close>. \<open>split(..)[0]\<close> and \<open>split(..)[-1]\<close> are the first and
  the last piece; \<open>split\<close> never returns an empty list.
\<close>

definition S3Handler_create_filename ::
  "(str \<Rightarrow> str) \<Rightarrow> str \<Rightarrow> str \<Rightarrow> str \<Rightarrow> str \<Rightarrow> str \<Rightarrow> str" where
  "S3Handler_create_filename lower company_name event_date event_title doc_type original_filename =
    (let clean_company =
           lower (str_replace (cp ''/'') (cp ''_'') (str_replace (cp '' '') (cp ''_'') company_name));
         clean_event = lower (str_replace (cp '' '') (cp ''_'') event_title);
         clean_date = hd (str_split (cp ''T'') event_date);
         original_filename1 =
           (if QUESTION \<in> set original_filename then hd (str_split (cp ''?'') original_filename)
            else original_filename);
         file_extension =
           (if doc_type = cp ''transcript'' then cp ''pdf''
            else lower (last (str_split (cp ''.'') original_filename1)))
     in clean_company @ cp ''_'' @ clean_date @ cp ''_'' @ clean_event @ cp ''_'' @ doc_type @
        cp ''.'' @ file_extension)"

section \<open>Exceptions and JSON values\<close>

text \<open>
  The exceptions the modelled code can meet; all of them are subclasses of
  \<open>Exception\<close>. \<open>ClientError\<close> stands for any transport error of the HTTP session.
\<close>

datatype exn =
  JSONDecodeError | TypeError | AttributeError | KeyError | IndexError | ValueError | ClientError

definition bnd :: "exn + 'a \<Rightarrow> ('a \<Rightarrow> exn + 'b) \<Rightarrow> exn + 'b" where
  "bnd m f = (case m of Inl e \<Rightarrow> Inl e | Inr v \<Rightarrow> f v)"

text \<open>
  What \<open>json.loads\<close> returns. A float is kept as mantissa and exponent; only whether it
  is zero matters to the code. A dict is an association list read with \<open>map_of\<close>.
\<close>

datatype json =
  JNull | JBool bool | JInt int | JFloat int int | JStr str
  | JArr "json list" | JObj "(str \<times> json) list"

fun truthy :: "json \<Rightarrow> bool" where
  "truthy JNull = False"
| "truthy (JBool b) = b"
| "truthy (JInt i) = (i \<noteq> 0)"
| "truthy (JFloat m e) = (m \<noteq> 0)"
| "truthy (JStr s) = (s \<noteq> [])"
| "truthy (JArr xs) = (xs \<noteq> [])"
| "truthy (JObj kvs) = (kvs \<noteq> [])"

text \<open>
  \<open>key in x\<close> for a string \<open>key\<close>: membership of the key in a dict, substring test on a
  string, element test on a list, \<open>TypeError\<close> on anything else.
\<close>

fun py_in :: "str \<Rightarrow> json \<Rightarrow> exn + bool" where
  "py_in k (JObj kvs) = Inr (k \<in> set (map fst kvs))"
| "py_in k (JStr s) = Inr (sublist k s)"
| "py_in k (JArr xs) = Inr (JStr k \<in> set xs)"
| "py_in k JNull = Inl TypeError"
| "py_in k (JBool b) = Inl TypeError"
| "py_in k (JInt i) = Inl TypeError"
| "py_in k (JFloat m e) = Inl TypeError"

text \<open>\<open>x[key]\<close> for a string \<open>key\<close>, and \<open>x.get(key, default)\<close>.\<close>

fun py_getitem :: "json \<Rightarrow> str \<Rightarrow> exn + json" where
  "py_getitem (JObj kvs) k = (case map_of kvs k of Some v \<Rightarrow> Inr v | None \<Rightarrow> Inl KeyError)"
| "py_getitem JNull k = Inl TypeError"
| "py_getitem (JBool b) k = Inl TypeError"
| "py_getitem (JInt i) k = Inl TypeError"
| "py_getitem (JFloat m e) k = Inl TypeError"
| "py_getitem (JStr s) k = Inl TypeError"
| "py_getitem (JArr xs) k = Inl TypeError"

fun py_get :: "json \<Rightarrow> str \<Rightarrow> json \<Rightarrow> exn + json" where
  "py_get (JObj kvs) k d = (case map_of kvs k of Some v \<Rightarrow> Inr v | None \<Rightarrow> Inr d)"
| "py_get JNull k d = Inl AttributeError"
| "py_get (JBool b) k d = Inl AttributeError"
| "py_get (JInt i) k d = Inl AttributeError"
| "py_get (JFloat m e) k d = Inl AttributeError"
| "py_get (JStr s) k d = Inl AttributeError"
| "py_get (JArr xs) k d = Inl AttributeError"

text \<open>
  \<open>format_transcript_text(x)\<close> on a value that came out of JSON: only a string has the
  method \<open>replace\<close> that the formatter calls first.
\<close>

fun py_format :: "json \<Rightarrow> exn + str" where
  "py_format (JStr s) = Inr (format_transcript_text s)"
| "py_format JNull = Inl AttributeError"
| "py_format (JBool b) = Inl AttributeError"
| "py_format (JInt i) = Inl AttributeError"
| "py_format (JFloat m e) = Inl AttributeError"
| "py_format (JArr xs) = Inl AttributeError"
| "py_format (JObj kvs) = Inl AttributeError"

section \<open>The HTTP session\<close>

type_synonym bytes = string

record response =
  status :: int
  json_body :: "exn + json"
  text_body :: "exn + str"
  read_body :: "exn + bytes"

datatype reply = Raises exn | Responds response

record request =
  url :: str
  headers :: "(str \<times> str) list"
  params :: "(str \<times> json) list"

text \<open>
  The network answers each request of a call; the answer may depend on how many requests
  the call has made before, so two requests for the same URL need not get the same reply.
  Every operation returns, with its result, the list of the requests it has sent.
\<close>

type_synonym network = "nat \<Rightarrow> request \<Rightarrow> reply"

definition base_url :: str where
  "base_url = cp ''https://api.quartr.com/public/v1''"

definition api_key_headers :: "str \<Rightarrow> (str \<times> str) list" where
  "api_key_headers api_key = [(cp ''X-Api-Key'', api_key)]"

section \<open>QuartrAPI\<close>

definition get_company_events ::
  "str \<Rightarrow> network \<Rightarrow> str \<Rightarrow> str \<Rightarrow> (exn + json) \<times> request list" where
  "get_company_events api_key net company_id event_type =
    (let rq = \<lparr>url = base_url @ cp ''/companies/'' @ company_id @ cp ''/earlier-events'',
               headers = api_key_headers api_key,
               params = (if event_type \<noteq> cp ''all'' then [(cp ''type'', JStr event_type)] else []) @
                        [(cp ''limit'', JInt 10), (cp ''page'', JInt 1)]\<rparr> in
     case net 0 rq of
       Raises e \<Rightarrow> (Inr (JObj []), [rq])
     | Responds r \<Rightarrow>
         if status r = 200 then
           (case bnd (json_body r) (\<lambda>data. bnd (py_get data (cp ''data'') (JArr []))
                   (\<lambda>events. Inr (JObj [(cp ''events'', events)]))) of
              Inl e \<Rightarrow> (Inr (JObj []), [rq])
            | Inr v \<Rightarrow> (Inr v, [rq]))
         else
           (case text_body r of
              Inl e \<Rightarrow> (Inr (JObj []), [rq])
            | Inr response_text \<Rightarrow> (Inr (JObj []), [rq])))"

definition get_company_info :: "str \<Rightarrow> network \<Rightarrow> str \<Rightarrow> (exn + json) \<times> request list" where
  "get_company_info api_key net company_id =
    (let rq = \<lparr>url = base_url @ cp ''/companies/'' @ company_id,
               headers = api_key_headers api_key, params = []\<rparr> in
     case net 0 rq of
       Raises e \<Rightarrow> (Inr (JObj []), [rq])
     | Responds r \<Rightarrow>
         if status r = 200 then
           (case json_body r of Inl e \<Rightarrow> (Inr (JObj []), [rq]) | Inr data \<Rightarrow> (Inr data, [rq]))
         else
           (case text_body r of
              Inl e \<Rightarrow> (Inr (JObj []), [rq])
            | Inr response_text \<Rightarrow> (Inr (JObj []), [rq])))"

definition get_document :: "network \<Rightarrow> str \<Rightarrow> (exn + bytes option) \<times> request list" where
  "get_document net doc_url =
    (let rq = \<lparr>url = doc_url, headers = [], params = []\<rparr> in
     case net 0 rq of
       Raises e \<Rightarrow> (Inr None, [rq])
     | Responds r \<Rightarrow>
         if status r = 200 then
           (case read_body r of Inl e \<Rightarrow> (Inr None, [rq]) | Inr b \<Rightarrow> (Inr (Some b), [rq]))
         else (Inr None, [rq]))"

section \<open>TranscriptProcessor.process_transcript\<close>

text \<open>
  Lines 256 to 262: the raw transcript URL taken from the \<open>transcripts\<close> dict, \<open>None\<close>
  when neither field holds a true value. \<open>transcripts.get('liveTranscripts', {})\<close> is the
  stored value when the key is present, whatever it is.
\<close>

definition finished_live_url :: "(str \<times> json) list \<Rightarrow> exn + json option" where
  "finished_live_url transcripts =
    (let live = (case map_of transcripts (cp ''liveTranscripts'') of Some v \<Rightarrow> v | None \<Rightarrow> JObj []) in
     bnd (py_in (cp ''finishedLiveTranscriptUrl'') live) (\<lambda>found.
       if found then
         bnd (py_getitem (JObj transcripts) (cp ''liveTranscripts'')) (\<lambda>l.
         bnd (py_getitem l (cp ''finishedLiveTranscriptUrl'')) (\<lambda>v.
           Inr (if truthy v then Some v else None)))
       else Inr None))"

definition select_raw_url :: "(str \<times> json) list \<Rightarrow> exn + json option" where
  "select_raw_url transcripts =
    (case map_of transcripts (cp ''transcriptUrl'') of
       Some v \<Rightarrow> if truthy v then Inr (Some v) else finished_live_url transcripts
     | None \<Rightarrow> finished_live_url transcripts)"

text \<open>
  \<open>transcript_url.split('/')[-2]\<close> raises \<open>IndexError\<close> when there are fewer than two
  pieces. \<open>isdigit\<close> stands for the Unicode digit table behind \<open>str.isdigit\<close>, which
  holds of a string when it is non-empty and all its characters are digits.
\<close>

definition document_id_of :: "str \<Rightarrow> exn + str" where
  "document_id_of transcript_url =
    (let segs = str_split (cp ''/'') transcript_url in
     if length segs < 2 then Inl IndexError else Inr (segs ! (length segs - 2)))"

definition str_isdigit :: "(codepoint \<Rightarrow> bool) \<Rightarrow> str \<Rightarrow> bool" where
  "str_isdigit isdigit s \<longleftrightarrow> s \<noteq> [] \<and> list_all isdigit s"

definition derived_url :: "str \<Rightarrow> str" where
  "derived_url document_id = cp ''https://api.quartr.com/public/v1/transcripts/document/'' @ document_id"

text \<open>
  Lines 272 to 280, the reply of the derived API endpoint: \<open>Inr (Some s)\<close> is
  \<open>return s\<close>, \<open>Inr None\<close> is falling out of the block, \<open>Inl e\<close> an exception that
  reaches the outer handler.
\<close>

definition process_api_response :: "response \<Rightarrow> exn + str option" where
  "process_api_response r =
    (if status r = 200 then
       bnd (json_body r) (\<lambda>transcript_data.
         if \<not> truthy transcript_data then Inr None
         else bnd (py_in (cp ''transcript'') transcript_data) (\<lambda>has_transcript.
           if \<not> has_transcript then Inr None
           else bnd (py_getitem transcript_data (cp ''transcript'')) (\<lambda>t.
                bnd (py_get t (cp ''text'') (JStr [])) (\<lambda>text.
                  if truthy text then bnd (py_format text) (\<lambda>formatted_text. Inr (Some formatted_text))
                  else Inr None))))
     else Inr None)"

text \<open>
  Lines 291 to 310, a reply with status 200 to the fetch of the raw URL: the body is read
  as JSON; only a \<open>JSONDecodeError\<close> leads to the plain-text reading.
\<close>

definition process_json_body :: "json \<Rightarrow> exn + str option" where
  "process_json_body transcript_data =
    bnd (py_in (cp ''transcript'') transcript_data) (\<lambda>has_transcript.
      if has_transcript then
        bnd (py_getitem transcript_data (cp ''transcript'')) (\<lambda>t.
        bnd (py_get t (cp ''text'') (JStr [])) (\<lambda>text.
          if truthy text then bnd (py_format text) (\<lambda>formatted_text. Inr (Some formatted_text))
          else Inr None))
      else
        bnd (py_in (cp ''text'') transcript_data) (\<lambda>has_text.
          if has_text then
            bnd (py_getitem transcript_data (cp ''text'')) (\<lambda>text.
            bnd (py_format text) (\<lambda>formatted_text. Inr (Some formatted_text)))
          else Inr None))"

definition process_raw_response :: "response \<Rightarrow> exn + str option" where
  "process_raw_response r =
    (case json_body r of
       Inl JSONDecodeError \<Rightarrow>
         bnd (text_body r) (\<lambda>text.
           if text \<noteq> [] then Inr (Some (format_transcript_text text)) else Inr None)
     | Inl e \<Rightarrow> Inl e
     | Inr transcript_data \<Rightarrow> process_json_body transcript_data)"

text \<open>
  Lines 283 to 314, with their own \<open>try\<close>: \<open>Some s\<close> is \<open>return s\<close>, \<open>None\<close> is reaching
  the end of the block, also through its exception handler. A URL that is not a string
  makes \<open>session.get\<close> raise before anything is sent.
\<close>

definition fetch_raw :: "str \<Rightarrow> network \<Rightarrow> request list \<Rightarrow> json \<Rightarrow> str option \<times> request list" where
  "fetch_raw api_key net log raw_transcript_url =
    (case py_in (cp ''api.quartr.com'') raw_transcript_url of
       Inl e \<Rightarrow> (None, log)
     | Inr first_party \<Rightarrow>
         (case raw_transcript_url of
            JStr u \<Rightarrow>
              (let rq = \<lparr>url = u,
                         headers = (if first_party then api_key_headers api_key else []),
                         params = []\<rparr> in
               case net (length log) rq of
                 Raises e \<Rightarrow> (None, log @ [rq])
               | Responds r \<Rightarrow>
                   if status r = 200 then
                     (case process_raw_response r of
                        Inl e \<Rightarrow> (None, log @ [rq])
                      | Inr res \<Rightarrow> (res, log @ [rq]))
                   else (None, log @ [rq]))
          | _ \<Rightarrow> (None, log)))"

text \<open>
  Lines 265 to 280, the app transcript URL: \<open>Return s\<close> when the function returns from
  inside the block, \<open>Continue raw\<close> with the value of \<open>raw_transcript_url\<close> otherwise.
\<close>

datatype 'a flow = Return str | Continue 'a

definition truthy_opt :: "json option \<Rightarrow> bool" where
  "truthy_opt raw = (case raw of None \<Rightarrow> False | Some v \<Rightarrow> truthy v)"

definition app_url_path ::
  "str \<Rightarrow> (codepoint \<Rightarrow> bool) \<Rightarrow> network \<Rightarrow> str option \<Rightarrow> json option \<Rightarrow>
   (exn + json option flow) \<times> request list" where
  "app_url_path api_key isdigit net transcript_url raw0 =
    (case transcript_url of
       None \<Rightarrow> (Inr (Continue raw0), [])
     | Some u \<Rightarrow>
         if \<not> truthy_opt raw0 \<and> u \<noteq> [] \<and> sublist (cp ''app.quartr.com'') u then
           (case document_id_of u of
              Inl e \<Rightarrow> (Inl e, [])
            | Inr document_id \<Rightarrow>
                if str_isdigit isdigit document_id then
                  (let rq = \<lparr>url = derived_url document_id,
                             headers = api_key_headers api_key, params = []\<rparr> in
                   case net 0 rq of
                     Raises e \<Rightarrow> (Inl e, [rq])
                   | Responds r \<Rightarrow>
                       (case process_api_response r of
                          Inl e \<Rightarrow> (Inl e, [rq])
                        | Inr (Some s) \<Rightarrow> (Inr (Return s), [rq])
                        | Inr None \<Rightarrow> (Inr (Continue (Some (JStr (derived_url document_id)))), [rq])))
                else (Inr (Continue raw0), []))
         else (Inr (Continue raw0), []))"

text \<open>
  The body of the outer \<open>try\<close>, and the function with its handler, which turns every
  exception into the empty string. \<open>transcript_url\<close> is \<open>None\<close> or a string,
  \<open>transcripts\<close> a dict of JSON values.
\<close>

definition process_transcript_body ::
  "str \<Rightarrow> (codepoint \<Rightarrow> bool) \<Rightarrow> network \<Rightarrow> str option \<Rightarrow> (str \<times> json) list \<Rightarrow>
   (exn + str) \<times> request list" where
  "process_transcript_body api_key isdigit net transcript_url transcripts =
    (case select_raw_url transcripts of
       Inl e \<Rightarrow> (Inl e, [])
     | Inr raw0 \<Rightarrow>
         (case app_url_path api_key isdigit net transcript_url raw0 of
            (Inl e, log) \<Rightarrow> (Inl e, log)
          | (Inr (Return s), log) \<Rightarrow> (Inr s, log)
          | (Inr (Continue raw), log) \<Rightarrow>
              (case raw of
                 None \<Rightarrow> (Inr [], log)
               | Some v \<Rightarrow>
                   if truthy v then
                     (case fetch_raw api_key net log v of
                        (Some s, log') \<Rightarrow> (Inr s, log')
                      | (None, log') \<Rightarrow> (Inr [], log'))
                   else (Inr [], log))))"

definition process_transcript ::
  "str \<Rightarrow> (codepoint \<Rightarrow> bool) \<Rightarrow> network \<Rightarrow> str option \<Rightarrow> (str \<times> json) list \<Rightarrow>
   (exn + str) \<times> request list" where
  "process_transcript api_key isdigit net transcript_url transcripts =
    (case process_transcript_body api_key isdigit net transcript_url transcripts of
       (Inl e, log) \<Rightarrow> (Inr [], log)
     | (Inr s, log) \<Rightarrow> (Inr s, log))"

section \<open>TranscriptProcessor.create_pdf\<close>

text \<open>
  The three chained \<open>replace\<close> calls of lines 378, 380 and 392, in the order of the
  source, and what the specification asks of them: each character replaced once.
\<close>

definition xml_escape :: "str \<Rightarrow> str" where
  "xml_escape s =
     str_replace (cp ''>'') (cp ''&gt;'')
       (str_replace (cp ''<'') (cp ''&lt;'') (str_replace (cp ''&'') (cp ''&amp;'') s))"

definition spec_escape_char :: "codepoint \<Rightarrow> str" where
  "spec_escape_char c =
     (if c = AMP then cp ''&amp;'' else if c = LESS then cp ''&lt;''
      else if c = GREATER then cp ''&gt;'' else [c])"

text \<open>
  A text carries no raw markup character when it has no \<open><\<close> and no \<open>>\<close> and each of
  its ampersands starts one of the three entities.
\<close>

fun entity_ampersands :: "str \<Rightarrow> bool" where
  "entity_ampersands [] = True"
| "entity_ampersands (c # cs) =
     ((c = AMP \<longrightarrow> prefix (cp ''amp;'') cs \<or> prefix (cp ''lt;'') cs \<or> prefix (cp ''gt;'') cs) \<and>
      entity_ampersands cs)"

definition no_raw_markup :: "str \<Rightarrow> bool" where
  "no_raw_markup t \<longleftrightarrow> LESS \<notin> set t \<and> GREATER \<notin> set t \<and> entity_ampersands t"

text \<open>
  The layout engine (reportlab) is outside the repository: constructing a paragraph may
  raise, and so may building the document, which otherwise yields the bytes of the PDF.
  Styles are named by their names. The calls made to the engine are recorded in order.
\<close>

datatype flowable = Paragraph str str | Spacer nat nat

datatype engine_call =
  NewSimpleDocTemplate | GetSampleStyleSheet | NewParagraphStyle str
  | NewParagraph str str | NewSpacer nat nat | Build "flowable list"

record layout_engine =
  paragraph_raises :: "str \<Rightarrow> str \<Rightarrow> exn option"
  build_result :: "flowable list \<Rightarrow> exn + bytes"

text \<open>
  The header text of lines 376 to 383: a fixed template around the escaped company name,
  the escaped event title and the event date, which is inserted as it is.
\<close>

definition header_before_company :: str where
  "header_before_company =
     cp ''\<newline>            <para alignment='' @ [34] @ cp ''center'' @ [34] @ cp ''>\<newline>            <b>''"

definition header_between :: str where
  "header_between = cp ''</b><br/>\<newline>            <br/>\<newline>            Event: ''"

definition header_after_title :: "str \<Rightarrow> str" where
  "header_after_title event_date =
     cp ''<br/>\<newline>            Date: '' @ event_date @ cp ''\<newline>            </para>\<newline>        ''"

definition header_text :: "str \<Rightarrow> str \<Rightarrow> str \<Rightarrow> str" where
  "header_text company_name event_title event_date =
     header_before_company @ xml_escape company_name @ header_between @
     xml_escape event_title @ header_after_title event_date"

text \<open>The loop of lines 389 to 398 over the paragraphs, with the story and the calls so far.\<close>

fun add_paragraphs ::
  "layout_engine \<Rightarrow> str list \<Rightarrow> flowable list \<times> engine_call list \<Rightarrow> flowable list \<times> engine_call list" where
  "add_paragraphs eng [] acc = acc"
| "add_paragraphs eng (para # paras) (story, calls) =
     (if str_strip para \<noteq> [] then
        (let clean_para = xml_escape (str_strip para) in
         case paragraph_raises eng clean_para (cp ''CustomText'') of
           Some e \<Rightarrow>
             add_paragraphs eng paras (story, calls @ [NewParagraph clean_para (cp ''CustomText'')])
         | None \<Rightarrow>
             add_paragraphs eng paras
               (story @ [Paragraph clean_para (cp ''CustomText''), Spacer 1 6],
                calls @ [NewParagraph clean_para (cp ''CustomText''), NewSpacer 1 6]))
      else add_paragraphs eng paras (story, calls))"

definition create_pdf ::
  "layout_engine \<Rightarrow> str \<Rightarrow> str \<Rightarrow> str \<Rightarrow> str \<Rightarrow> (exn + bytes) \<times> engine_call list" where
  "create_pdf eng company_name event_title event_date transcript_text =
    (if transcript_text = [] then (Inr [], [])
     else
       (let header = header_text company_name event_title event_date;
            calls0 = [NewSimpleDocTemplate, GetSampleStyleSheet,
                      NewParagraphStyle (cp ''CustomHeader''), NewParagraphStyle (cp ''CustomText''),
                      NewParagraph header (cp ''CustomHeader'')] in
        case paragraph_raises eng header (cp ''CustomHeader'') of
          Some e \<Rightarrow> (Inl e, calls0)
        | None \<Rightarrow>
            (case add_paragraphs eng (str_split [LF, LF] transcript_text)
                    ([Paragraph header (cp ''CustomHeader''), Spacer 1 30], calls0 @ [NewSpacer 1 30]) of
               (story, calls) \<Rightarrow>
                 (case build_result eng story of
                    Inl e \<Rightarrow> (Inr [], calls @ [Build story])
                  | Inr pdf_data \<Rightarrow> (Inr pdf_data, calls @ [Build story])))))"

section \<open>Predicates used in the proofs about the text formatter\<close>

text \<open>
  \<open>has_esc\<close>: the string contains the two-character sequence backslash, \<open>n\<close>.
  \<open>single_spaced\<close>: every whitespace character is a plain space and no two whitespace
  characters are adjacent. \<open>trimmed\<close>: non-empty, with no whitespace at either end.
  \<open>nice\<close>: what every sentence of the formatter's output satisfies.
\<close>

fun has_esc :: "str \<Rightarrow> bool" where
  "has_esc [] = False"
| "has_esc [c] = False"
| "has_esc (c # d # r) = ((c = BACKSLASH \<and> d = LOWER_N) \<or> has_esc (d # r))"

fun single_spaced :: "str \<Rightarrow> bool" where
  "single_spaced [] = True"
| "single_spaced [c] = (isspace c \<longrightarrow> c = SPACE)"
| "single_spaced (c # d # r) = ((isspace c \<longrightarrow> c = SPACE \<and> \<not> isspace d) \<and> single_spaced (d # r))"

definition trimmed :: "str \<Rightarrow> bool" where
  "trimmed y \<longleftrightarrow> y \<noteq> [] \<and> \<not> isspace (hd y) \<and> \<not> isspace (last y)"

definition nice :: "str \<Rightarrow> bool" where
  "nice x \<longleftrightarrow> DOT \<notin> set x \<and> single_spaced x \<and> trimmed x"

text \<open>The two middle steps of \<open>format_transcript_text\<close>, named for the proofs.\<close>

definition normalize_ws :: "str \<Rightarrow> str" where
  "normalize_ws t = str_join [SPACE] (str_split_ws t)"

definition sentences_of :: "str \<Rightarrow> str list" where
  "sentences_of t = [str_strip s. s \<leftarrow> str_split [DOT] t, str_strip s \<noteq> []]"

section \<open>Notions used to state the properties of the fetch operations\<close>

text \<open>A reply that is not a success: the request raised, or the status is not 200.\<close>

fun failing :: "reply \<Rightarrow> bool" where
  "failing (Raises e) = True"
| "failing (Responds r) = (status r \<noteq> 200)"



text \<open>
  The resolution policy in the specification's words (section 4.2, steps 1 to 3): a
  non-empty \<open>transcriptUrl\<close> field, else a non-empty nested \<open>finishedLiveTranscriptUrl\<close>,
  else the API endpoint derived from the numeric second-to-last path segment of an
  \<open>app.quartr.com\<close> page URL; \<open>None\<close> when no step applies.
\<close>

definition nonempty_str :: "json option \<Rightarrow> str option" where
  "nonempty_str v = (case v of Some (JStr u) \<Rightarrow> if u \<noteq> [] then Some u else None | _ \<Rightarrow> None)"

definition spec_field_url :: "(str \<times> json) list \<Rightarrow> str option" where
  "spec_field_url transcripts =
    (case nonempty_str (map_of transcripts (cp ''transcriptUrl'')) of
       Some u \<Rightarrow> Some u
     | None \<Rightarrow>
         nonempty_str
           (case map_of transcripts (cp ''liveTranscripts'') of
              Some (JObj l) \<Rightarrow> map_of l (cp ''finishedLiveTranscriptUrl'')
            | _ \<Rightarrow> None))"

definition spec_derived_url :: "(codepoint \<Rightarrow> bool) \<Rightarrow> str option \<Rightarrow> str option" where
  "spec_derived_url isdigit transcript_url =
    (case transcript_url of
       None \<Rightarrow> None
     | Some u \<Rightarrow>
         if sublist (cp ''app.quartr.com'') u then
           (case document_id_of u of
              Inl e \<Rightarrow> None
            | Inr d \<Rightarrow> if str_isdigit isdigit d then Some (derived_url d) else None)
         else None)"

definition spec_resolved_url ::
  "(codepoint \<Rightarrow> bool) \<Rightarrow> str option \<Rightarrow> (str \<times> json) list \<Rightarrow> str option" where
  "spec_resolved_url isdigit transcript_url transcripts =
    (case spec_field_url transcripts of
       Some u \<Rightarrow> Some u
     | None \<Rightarrow> spec_derived_url isdigit transcript_url)"

text \<open>
  A transcripts dict of the expected shape: each URL field is absent, null or a string,
  and \<open>liveTranscripts\<close> is absent or a dict.
\<close>

definition url_field_ok :: "json option \<Rightarrow> bool" where
  "url_field_ok v = (case v of None \<Rightarrow> True | Some JNull \<Rightarrow> True | Some (JStr u) \<Rightarrow> True | _ \<Rightarrow> False)"

definition transcripts_ok :: "(str \<times> json) list \<Rightarrow> bool" where
  "transcripts_ok transcripts \<longleftrightarrow>
     url_field_ok (map_of transcripts (cp ''transcriptUrl'')) \<and>
     (case map_of transcripts (cp ''liveTranscripts'') of
        None \<Rightarrow> True
      | Some (JObj l) \<Rightarrow> url_field_ok (map_of l (cp ''finishedLiveTranscriptUrl''))
      | _ \<Rightarrow> False)"

text \<open>The ASCII digits, a part of every digit table, for the concrete runs below.\<close>

definition ascii_digit :: "codepoint \<Rightarrow> bool" where
  "ascii_digit c \<longleftrightarrow> 48 \<le> c \<and> c \<le> 57"

text \<open>
  Concrete networks for the runs below: one that answers every request with status 200
  and a JSON transcript, one that answers 404, and one whose first answer is 500 and
  every later one the transcript.
\<close>

definition ok_response :: "str \<Rightarrow> response" where
  "ok_response t =
     \<lparr>status = 200,
      json_body = Inr (JObj [(cp ''transcript'', JObj [(cp ''text'', JStr t)])]),
      text_body = Inr [], read_body = Inr []\<rparr>"

definition error_response :: "int \<Rightarrow> response" where
  "error_response code =
     \<lparr>status = code, json_body = Inl JSONDecodeError, text_body = Inr [], read_body = Inr []\<rparr>"

definition serving_network :: "str \<Rightarrow> network" where
  "serving_network t n rq = Responds (ok_response t)"

definition not_found_network :: network where
  "not_found_network n rq = Responds (error_response 404)"

definition flaky_network :: "str \<Rightarrow> network" where
  "flaky_network t n rq = (if n = 0 then Responds (error_response 500) else Responds (ok_response t))"

definition app_page_url :: str where
  "app_page_url = cp ''https://app.quartr.com/events/123/transcript''"

definition cdn_url :: str where
  "cdn_url = cp ''https://cdn.example.com/t.json''"

definition plain_engine :: layout_engine where
  "plain_engine = \<lparr>paragraph_raises = (\<lambda>t style. None), build_result = (\<lambda>story. Inr ''%PDF'')\<rparr>"

section \<open>Lemmas about the string operations\<close>

lemma isspace_SPACE [simp]: "isspace SPACE" by (simp add: isspace_def)
lemma isspace_LF [simp]: "isspace LF" by (simp add: isspace_def)
lemma not_isspace_DOT [simp]: "\<not> isspace DOT" by (simp add: isspace_def)

subsection \<open>join\<close>

lemma str_join_Cons: "ys \<noteq> [] \<Longrightarrow> str_join sep (x # ys) = x @ sep @ str_join sep ys"
  by (cases ys) simp_all

lemma str_join_Cons_Cons: "str_join sep ((c # q) # qs) = c # str_join sep (q # qs)"
  by (cases qs) simp_all

lemma str_join_append:
  "xs \<noteq> [] \<Longrightarrow> ys \<noteq> [] \<Longrightarrow> str_join sep (xs @ ys) = str_join sep xs @ sep @ str_join sep ys"
  by (induction sep xs rule: str_join.induct) (simp_all add: str_join_Cons)

lemma str_join_concat:
  "\<forall>xs \<in> set xss. xs \<noteq> [] \<Longrightarrow> str_join sep (concat xss) = str_join sep (map (str_join sep) xss)"
proof (induction xss)
  case Nil
  then show ?case by simp
next
  case (Cons xs xss)
  show ?case
  proof (cases "xss = []")
    case True
    then show ?thesis by simp
  next
    case False
    then obtain ys yss where xss: "xss = ys # yss" by (cases xss) auto
    with Cons.prems have "concat xss \<noteq> []" by auto
    with Cons show ?thesis
      by (simp add: str_join_append str_join_Cons False)
  qed
qed

lemma str_join_snoc_sep:
  "ss \<noteq> [] \<Longrightarrow> str_join (d # sep) ss @ [d] = str_join sep (map (\<lambda>x. x @ [d]) ss)"
  by (induction "d # sep" ss rule: str_join.induct) simp_all

lemma str_join_sublist: "p \<in> set ps \<Longrightarrow> sublist p (str_join sep ps)"
proof (induction sep ps rule: str_join.induct)
  case (3 sep x y ys)
  show ?case
  proof (cases "p = x")
    case True
    then show ?thesis by simp
  next
    case False
    with 3 have "sublist p (str_join sep (y # ys))" by simp
    then obtain a b where "str_join sep (y # ys) = a @ p @ b" by (auto simp: sublist_def)
    then have "str_join sep (x # y # ys) = (x @ sep @ a) @ p @ b" by simp
    then show ?thesis unfolding sublist_def by blast
  qed
qed simp_all

subsection \<open>split on a character\<close>

lemma str_split_not_Nil [simp]: "str_split sep s \<noteq> []"
  by (induction sep s rule: str_split.induct) (auto split: list.splits)

lemma str_split_char_Cons:
  "str_split [d] (c # cs) =
     (if c = d then [] # str_split [d] cs
      else (c # hd (str_split [d] cs)) # tl (str_split [d] cs))"
  by (cases "str_split [d] cs") simp_all

lemma str_split_char_none: "d \<notin> set x \<Longrightarrow> str_split [d] x = [x]"
  by (induction x) (simp_all add: str_split_char_Cons del: str_split.simps(2))

lemma str_split_char_append:
  "d \<notin> set x \<Longrightarrow> str_split [d] (x @ d # rest) = x # str_split [d] rest"
  by (induction x) (simp_all add: str_split_char_Cons del: str_split.simps(2))

lemma str_join_split_char: "str_join [d] (str_split [d] t) = t"
proof (induction t)
  case Nil
  then show ?case by simp
next
  case (Cons c cs)
  obtain q qs where q: "str_split [d] cs = q # qs"
    by (cases "str_split [d] cs") simp_all
  with Cons show ?case
    by (simp add: str_split_char_Cons str_join_Cons_Cons del: str_split.simps(2))
qed

lemma str_split_char_sublist: "p \<in> set (str_split [d] t) \<Longrightarrow> sublist p t"
  using str_join_sublist [of p "str_split [d] t" "[d]"] by (simp add: str_join_split_char)

lemma str_split_char_notin: "p \<in> set (str_split [d] t) \<Longrightarrow> d \<notin> set p"
proof (induction t arbitrary: p)
  case Nil
  then show ?case by simp
next
  case (Cons c cs)
  obtain q qs where q: "str_split [d] cs = q # qs"
    by (cases "str_split [d] cs") simp_all
  with Cons show ?case
    by (auto simp: str_split_char_Cons simp del: str_split.simps(2) split: if_splits)
qed


subsection \<open>split on whitespace\<close>

lemma dropWhile_all: "\<forall>x \<in> set xs. P x \<Longrightarrow> dropWhile P xs = []"
  by simp

lemma takeWhile_all: "\<forall>x \<in> set xs. P x \<Longrightarrow> takeWhile P xs = xs"
  by simp

lemma str_split_ws_first_word:
  assumes "\<not> isspace c" and "\<forall>x \<in> set cs. \<not> isspace x" and "b = [] \<or> isspace (hd b)"
  shows "str_split_ws (c # cs @ b) = (c # cs) # str_split_ws b"
proof -
  from assms(3) have tb: "takeWhile (\<lambda>x. \<not> isspace x) b = []"
    by (cases b) auto
  from assms(3) have db: "dropWhile (\<lambda>x. \<not> isspace x) b = b"
    by (cases b) auto
  from assms(2) have t: "takeWhile (\<lambda>x. \<not> isspace x) (cs @ b) = cs"
    by (simp add: tb)
  from assms(2) have d: "dropWhile (\<lambda>x. \<not> isspace x) (cs @ b) = b"
    by (simp add: db)
  have "str_split_ws (c # cs @ b) =
        (c # takeWhile (\<lambda>x. \<not> isspace x) (cs @ b)) #
          str_split_ws (dropWhile (\<lambda>x. \<not> isspace x) (cs @ b))"
    using assms(1) by (simp del: takeWhile_append1 dropWhile_append1 takeWhile_append2 dropWhile_append2)
  then show ?thesis by (simp only: t d)
qed

lemma str_split_ws_space: "isspace c \<Longrightarrow> str_split_ws (c # cs) = str_split_ws cs"
  by simp

lemma str_split_ws_spaces: "\<forall>c \<in> set a. isspace c \<Longrightarrow> str_split_ws (a @ b) = str_split_ws b"
  by (induction a) simp_all

lemma str_split_ws_not_Nil: "\<not> isspace c \<Longrightarrow> str_split_ws (c # cs) \<noteq> []"
  by simp

lemma str_split_ws_append:
  "b = [] \<or> isspace (hd b) \<Longrightarrow> str_split_ws (a @ b) = str_split_ws a @ str_split_ws b"
proof (induction a rule: str_split_ws.induct)
  case 1
  then show ?case by simp
next
  case (2 c cs)
  show ?case
  proof (cases "isspace c")
    case True
    with 2 show ?thesis by simp
  next
    case False
    show ?thesis
    proof (cases "\<forall>x \<in> set cs. \<not> isspace x")
      case True
      have "str_split_ws (c # cs @ b) = (c # cs) # str_split_ws b"
        using False True 2(3) by (rule str_split_ws_first_word)
      moreover have "str_split_ws (c # cs @ []) = (c # cs) # str_split_ws []"
        using False True by (rule str_split_ws_first_word) simp
      ultimately show ?thesis by simp
    next
      case ex: False
      then obtain x where x: "x \<in> set cs" "\<not> \<not> isspace x" by auto
      have t1: "takeWhile (\<lambda>x. \<not> isspace x) (cs @ b) = takeWhile (\<lambda>x. \<not> isspace x) cs"
        using x by (rule takeWhile_append1)
      have d1: "dropWhile (\<lambda>x. \<not> isspace x) (cs @ b) = dropWhile (\<lambda>x. \<not> isspace x) cs @ b"
        using x by (rule dropWhile_append1)
      have "str_split_ws (dropWhile (\<lambda>x. \<not> isspace x) cs @ b) =
            str_split_ws (dropWhile (\<lambda>x. \<not> isspace x) cs) @ str_split_ws b"
        using 2(2) [OF False 2(3)] .
      with False show ?thesis
        by (simp add: t1 d1)
    qed
  qed
qed

lemma str_split_ws_sublist: "w \<in> set (str_split_ws t) \<Longrightarrow> sublist w t"
proof (induction t rule: str_split_ws.induct)
  case 1
  then show ?case by simp
next
  case (2 c cs)
  show ?case
  proof (cases "isspace c")
    case True
    with 2 have "sublist w cs" by simp
    then show ?thesis by (simp add: sublist_Cons_right)
  next
    case False
    let ?tw = "takeWhile (\<lambda>x. \<not> isspace x) (c # cs)"
    let ?dw = "dropWhile (\<lambda>x. \<not> isspace x) cs"
    from 2(3) False have "w = ?tw \<or> w \<in> set (str_split_ws ?dw)" by simp
    then show ?thesis
    proof
      assume "w = ?tw"
      then show ?thesis by (simp only: sublist_takeWhile)
    next
      assume "w \<in> set (str_split_ws ?dw)"
      then have "sublist w ?dw" using 2(2) False by simp
      moreover have "sublist ?dw (c # cs)"
        by (simp add: sublist_Cons_right)
      ultimately show ?thesis by (rule sublist_order.order_trans)
    qed
  qed
qed

lemma str_split_ws_word:
  "w \<in> set (str_split_ws t) \<Longrightarrow> w \<noteq> [] \<and> (\<forall>c \<in> set w. \<not> isspace c)"
proof (induction t rule: str_split_ws.induct)
  case 1
  then show ?case by simp
next
  case (2 c cs)
  show ?case
  proof (cases "isspace c")
    case True
    with 2 show ?thesis by simp
  next
    case False
    with 2(3) have "w = c # takeWhile (\<lambda>x. \<not> isspace x) cs \<or>
        w \<in> set (str_split_ws (dropWhile (\<lambda>x. \<not> isspace x) cs))" by simp
    then show ?thesis
    proof
      assume w: "w = c # takeWhile (\<lambda>x. \<not> isspace x) cs"
      have "\<forall>x \<in> set (takeWhile (\<lambda>x. \<not> isspace x) cs). \<not> isspace x"
        by (blast dest: set_takeWhileD)
      with w False show ?thesis by simp
    next
      assume "w \<in> set (str_split_ws (dropWhile (\<lambda>x. \<not> isspace x) cs))"
      with 2(2) False show ?thesis by blast
    qed
  qed
qed

subsection \<open>strip\<close>

lemma str_strip_Nil [simp]: "str_strip [] = []"
  by (simp add: str_strip_def)

lemma str_strip_space: "isspace c \<Longrightarrow> str_strip (c # x) = str_strip x"
  by (simp add: str_strip_def)

lemma str_strip_spaces: "\<forall>c \<in> set x. isspace c \<Longrightarrow> str_strip x = []"
proof -
  assume "\<forall>c \<in> set x. isspace c"
  then have "dropWhile isspace x = []" by simp
  then show ?thesis unfolding str_strip_def by (simp only: rev.simps dropWhile.simps)
qed

lemma str_strip_sublist: "sublist (str_strip p) p"
proof -
  have "sublist (dropWhile isspace (rev (dropWhile isspace p))) (rev (dropWhile isspace p))"
    by (rule sublist_dropWhile)
  then have "sublist (str_strip p) (dropWhile isspace p)"
    by (simp add: str_strip_def sublist_rev_left)
  moreover have "sublist (dropWhile isspace p) p" by (rule sublist_dropWhile)
  ultimately show ?thesis by (rule sublist_order.order_trans)
qed

lemma str_strip_trimmed_id: "trimmed y \<Longrightarrow> str_strip y = y"
proof -
  assume t: "trimmed y"
  then have 1: "dropWhile isspace y = y"
    by (cases y) (auto simp: trimmed_def)
  from t have "rev y \<noteq> [] \<and> \<not> isspace (hd (rev y))"
    by (simp add: trimmed_def hd_rev)
  then have 2: "dropWhile isspace (rev y) = rev y"
    by (cases "rev y") auto
  from 1 2 show ?thesis by (simp add: str_strip_def)
qed

lemma str_strip_trimmed: "str_strip p \<noteq> [] \<Longrightarrow> trimmed (str_strip p)"
proof -
  assume ne: "str_strip p \<noteq> []"
  let ?q = "dropWhile isspace p"
  let ?r = "dropWhile isspace (rev ?q)"
  have x: "str_strip p = rev ?r" by (simp add: str_strip_def)
  with ne have rne: "?r \<noteq> []" by simp
  then have "\<not> isspace (hd ?r)" by (rule hd_dropWhile)
  then have last: "\<not> isspace (last (str_strip p))" by (simp add: x last_rev)
  have "rev ?q = takeWhile isspace (rev ?q) @ ?r" by simp
  then have "rev (rev ?q) = rev (takeWhile isspace (rev ?q) @ ?r)" by (rule arg_cong)
  then have q: "?q = rev ?r @ rev (takeWhile isspace (rev ?q))"
    by (simp only: rev_append rev_rev_ident)
  from rne have "hd (rev ?r @ rev (takeWhile isspace (rev ?q))) = hd (rev ?r)" by simp
  with q have hq: "hd ?q = hd (rev ?r)" by simp
  have "?q \<noteq> []"
  proof
    assume "?q = []"
    then have "?r = []" by (simp only: rev.simps dropWhile.simps)
    with rne show False by (simp only:)
  qed
  then have "\<not> isspace (hd ?q)" by (rule hd_dropWhile)
  with hq have "\<not> isspace (hd (str_strip p))" by (simp add: x)
  with ne last show ?thesis by (simp add: trimmed_def)
qed

subsection \<open>escape sequences\<close>

lemma has_esc_Cons:
  "has_esc (c # t) \<longleftrightarrow> (c = BACKSLASH \<and> t \<noteq> [] \<and> hd t = LOWER_N) \<or> has_esc t"
  by (cases t) auto

lemma has_esc_append:
  "has_esc (a @ b) \<longleftrightarrow>
     has_esc a \<or> has_esc b \<or> (a \<noteq> [] \<and> b \<noteq> [] \<and> last a = BACKSLASH \<and> hd b = LOWER_N)"
proof (induction a)
  case Nil
  then show ?case by simp
next
  case (Cons c a)
  show ?case
  proof (cases "a = []")
    case True
    then show ?thesis by (cases b) (auto simp: has_esc_Cons)
  next
    case False
    with Cons show ?thesis
      by (simp add: has_esc_Cons del: has_esc.simps(2,3))
  qed
qed

lemma has_esc_sublist: "sublist p t \<Longrightarrow> has_esc p \<Longrightarrow> has_esc t"
  by (auto simp: sublist_def has_esc_append)

lemma hd_str_join: "x \<noteq> [] \<Longrightarrow> hd (str_join sep (x # xs)) = hd x"
  by (cases xs) simp_all

lemma has_esc_join:
  assumes "\<forall>x \<in> set xs. \<not> has_esc x" and "\<not> has_esc sep" and "sep \<noteq> []"
    and "hd sep \<noteq> LOWER_N" and "last sep \<noteq> BACKSLASH"
  shows "\<not> has_esc (str_join sep xs)"
  using assms
proof (induction sep xs rule: str_join.induct)
  case (3 sep x y ys)
  then have rest: "\<not> has_esc (str_join sep (y # ys))" by simp
  with 3 have "\<not> has_esc (sep @ str_join sep (y # ys))"
    by (simp add: has_esc_append)
  with 3 show ?case
    by (simp add: has_esc_append)
qed simp_all

lemma replace_esc_Cons:
  "str_replace [BACKSLASH, LOWER_N] new (c # cs) =
     (if c = BACKSLASH \<and> cs \<noteq> [] \<and> hd cs = LOWER_N
      then new @ str_replace [BACKSLASH, LOWER_N] new (tl cs)
      else c # str_replace [BACKSLASH, LOWER_N] new cs)"
  by (cases cs) auto

lemma replace_no_esc_id: "\<not> has_esc t \<Longrightarrow> str_replace [BACKSLASH, LOWER_N] new t = t"
  by (induction t) (auto simp: replace_esc_Cons has_esc_Cons simp del: str_replace.simps(2))

lemma replace_esc_hd:
  assumes "str_replace [BACKSLASH, LOWER_N] [LF] t \<noteq> []"
    and "hd (str_replace [BACKSLASH, LOWER_N] [LF] t) = LOWER_N"
  shows "t \<noteq> [] \<and> hd t = LOWER_N"
  using assms by (cases t) (simp_all add: replace_esc_Cons del: str_replace.simps(2) split: if_splits)

lemma replace_no_esc: "\<not> has_esc (str_replace [BACKSLASH, LOWER_N] [LF] t)"
proof (induction "length t" arbitrary: t rule: less_induct)
  case less
  show ?case
  proof (cases t)
    case Nil
    then show ?thesis by simp
  next
    case (Cons c cs)
    show ?thesis
    proof (cases "c = BACKSLASH \<and> cs \<noteq> [] \<and> hd cs = LOWER_N")
      case True
      have "length (tl cs) < length t" using Cons True by (cases cs) simp_all
      then have "\<not> has_esc (str_replace [BACKSLASH, LOWER_N] [LF] (tl cs))" by (rule less)
      with True Cons show ?thesis
        by (simp add: replace_esc_Cons has_esc_Cons del: str_replace.simps(2))
    next
      case False
      have "length cs < length t" using Cons by simp
      then have ih: "\<not> has_esc (str_replace [BACKSLASH, LOWER_N] [LF] cs)" by (rule less)
      have "\<not> (c = BACKSLASH \<and> str_replace [BACKSLASH, LOWER_N] [LF] cs \<noteq> [] \<and>
               hd (str_replace [BACKSLASH, LOWER_N] [LF] cs) = LOWER_N)"
        using False replace_esc_hd [of cs] by blast
      with ih False Cons show ?thesis
        by (auto simp: replace_esc_Cons has_esc_Cons simp del: str_replace.simps(2))
    qed
  qed
qed

subsection \<open>single spacing\<close>

lemma single_spaced_Cons:
  "single_spaced (c # t) \<longleftrightarrow>
     (isspace c \<longrightarrow> c = SPACE \<and> (t \<noteq> [] \<longrightarrow> \<not> isspace (hd t))) \<and> single_spaced t"
  by (cases t) auto

lemma single_spaced_append:
  "single_spaced (a @ b) \<longleftrightarrow>
     single_spaced a \<and> single_spaced b \<and>
     (a \<noteq> [] \<and> b \<noteq> [] \<longrightarrow> \<not> (isspace (last a) \<and> isspace (hd b)))"
proof (induction a)
  case Nil
  then show ?case by simp
next
  case (Cons c a)
  show ?case
  proof (cases "a = []")
    case True
    then show ?thesis by (cases b) (auto simp: single_spaced_Cons)
  next
    case False
    with Cons show ?thesis
      by (simp add: single_spaced_Cons del: single_spaced.simps(2,3))
  qed
qed

lemma single_spaced_sublist: "sublist p t \<Longrightarrow> single_spaced t \<Longrightarrow> single_spaced p"
  by (auto simp: sublist_def single_spaced_append)

lemma single_spaced_word: "\<forall>c \<in> set w. \<not> isspace c \<Longrightarrow> single_spaced w"
  by (induction w) (simp_all add: single_spaced_Cons del: single_spaced.simps(2,3))

lemma single_spaced_join_words:
  assumes "\<forall>w \<in> set ws. w \<noteq> [] \<and> (\<forall>c \<in> set w. \<not> isspace c)"
  shows "single_spaced (str_join [SPACE] ws)"
  using assms
proof (induction "[SPACE]" ws rule: str_join.induct)
  case 1
  then show ?case by simp
next
  case (2 x)
  then show ?case by (simp add: single_spaced_word)
next
  case (3 x y ys)
  then have rest: "single_spaced (str_join [SPACE] (y # ys))" by simp
  from 3 have y: "y \<noteq> []" "\<not> isspace (hd y)" by simp_all
  then have "\<not> isspace (hd (str_join [SPACE] (y # ys)))" by (simp add: hd_str_join)
  moreover from y have "str_join [SPACE] (y # ys) \<noteq> []" by (cases ys) simp_all
  ultimately have "single_spaced ([SPACE] @ str_join [SPACE] (y # ys))"
    using rest by (simp add: single_spaced_Cons del: single_spaced.simps(2,3))
  moreover from 3 have "x \<noteq> []" "\<not> isspace (last x)" "single_spaced x"
    by (simp_all add: single_spaced_word)
  ultimately show ?case
    by (simp add: single_spaced_append)
qed

lemma normalize_id:
  "single_spaced y \<Longrightarrow> trimmed y \<Longrightarrow> str_join [SPACE] (str_split_ws y) = y"
proof (induction "length y" arbitrary: y rule: less_induct)
  case less
  from less.prems(2) obtain c cs where y: "y = c # cs" and c: "\<not> isspace c"
    by (cases y) (auto simp: trimmed_def)
  let ?tw = "takeWhile (\<lambda>x. \<not> isspace x) cs"
  let ?dw = "dropWhile (\<lambda>x. \<not> isspace x) cs"
  have cs: "cs = ?tw @ ?dw" by simp
  have sw: "str_split_ws y = (c # ?tw) # str_split_ws ?dw" using y c by simp
  show ?case
  proof (cases ?dw)
    case Nil
    then have "?tw = cs" using cs by simp
    with sw Nil y show ?thesis by simp
  next
    case (Cons e r)
    have "?dw \<noteq> []" using Cons by simp
    then have "\<not> \<not> isspace (hd ?dw)" by (rule hd_dropWhile)
    with Cons have e: "isspace e" by simp
    have yy: "y = (c # ?tw) @ (e # r)" using y cs Cons by simp
    with less.prems(1) have "single_spaced (e # r)"
      by (simp only: single_spaced_append)
    with e have es: "e = SPACE" and r1: "r \<noteq> [] \<longrightarrow> \<not> isspace (hd r)" and r2: "single_spaced r"
      by (simp_all add: single_spaced_Cons del: single_spaced.simps(2,3))
    have rne: "r \<noteq> []"
    proof
      assume "r = []"
      with yy have "last y = e" by simp
      with e less.prems(2) show False by (simp add: trimmed_def)
    qed
    with yy have "last y = last r" by simp
    with less.prems(2) rne r1 have tr: "trimmed r" by (simp add: trimmed_def)
    have "length r < length y" using yy by simp
    then have ih: "str_join [SPACE] (str_split_ws r) = r" using r2 tr by (rule less.hyps)
    from tr have "str_split_ws r \<noteq> []"
      by (cases r) (simp_all add: trimmed_def)
    moreover have "str_split_ws ?dw = str_split_ws r" using Cons e by simp
    ultimately have "str_join [SPACE] (str_split_ws y) = (c # ?tw) @ [SPACE] @ r"
      using sw ih by (simp add: str_join_Cons)
    with yy es show ?thesis by simp
  qed
qed

lemma format_transcript_text_alt:
  "format_transcript_text s =
     str_join [DOT, LF, LF] (sentences_of (normalize_ws (str_replace [BACKSLASH, LOWER_N] [LF] s))) @ [DOT]"
  by (simp add: format_transcript_text_def sentences_of_def normalize_ws_def)

lemma comprehension_filter: "[f s. s \<leftarrow> xs, P (f s)] = filter P (map f xs)"
  by (induction xs) simp_all

lemma sentences_of_filter: "sentences_of t = filter (\<lambda>x. x \<noteq> []) (map str_strip (str_split [DOT] t))"
  unfolding sentences_of_def by (rule comprehension_filter)

lemma sublist_set: "sublist p t \<Longrightarrow> set p \<subseteq> set t"
  by (auto simp: sublist_def)

lemma sentences_of_sublist: "x \<in> set (sentences_of t) \<Longrightarrow> sublist x t"
proof -
  assume "x \<in> set (sentences_of t)"
  then obtain p where p: "p \<in> set (str_split [DOT] t)" and x: "x = str_strip p"
    by (auto simp: sentences_of_filter)
  have "sublist x p" unfolding x by (rule str_strip_sublist)
  moreover have "sublist p t" using p by (rule str_split_char_sublist)
  ultimately show ?thesis by (rule sublist_order.order_trans)
qed

lemma sentences_of_nice:
  assumes "single_spaced t" and "x \<in> set (sentences_of t)"
  shows "nice x"
proof -
  from assms(2) obtain p where p: "p \<in> set (str_split [DOT] t)" and x: "x = str_strip p"
    and ne: "str_strip p \<noteq> []"
    by (auto simp: sentences_of_filter)
  have "DOT \<notin> set p" using p by (rule str_split_char_notin)
  moreover have "set x \<subseteq> set p" unfolding x by (rule sublist_set) (rule str_strip_sublist)
  ultimately have 1: "DOT \<notin> set x" by blast
  have "sublist x t" using assms(2) by (rule sentences_of_sublist)
  then have 2: "single_spaced x" using assms(1) by (rule single_spaced_sublist)
  have 3: "trimmed x" unfolding x using ne by (rule str_strip_trimmed)
  from 1 2 3 show ?thesis by (simp add: nice_def)
qed

lemma normalize_ws_single_spaced: "single_spaced (normalize_ws t)"
  unfolding normalize_ws_def
  by (rule single_spaced_join_words) (blast dest: str_split_ws_word)

lemma normalize_ws_no_esc: "\<not> has_esc t \<Longrightarrow> \<not> has_esc (normalize_ws t)"
  unfolding normalize_ws_def
proof (rule has_esc_join)
  assume t: "\<not> has_esc t"
  show "\<forall>x \<in> set (str_split_ws t). \<not> has_esc x"
    using t by (blast dest: str_split_ws_sublist has_esc_sublist)
qed simp_all

lemma split_period_join:
  assumes "\<forall>x \<in> set (x # xs). DOT \<notin> set x"
  shows "str_split [DOT] (str_join [SPACE] (map (\<lambda>x. x @ [DOT]) (x # xs))) =
         x # map (\<lambda>x. SPACE # x) xs @ [[]]"
  using assms
proof (induction xs arbitrary: x)
  case Nil
  then show ?case by (simp add: str_split_char_append del: str_split.simps(2))
next
  case (Cons y ys)
  let ?rest = "str_join [SPACE] (map (\<lambda>x. x @ [DOT]) (y # ys))"
  have ih: "str_split [DOT] ?rest = y # map (\<lambda>x. SPACE # x) ys @ [[]]"
    using Cons.prems by (intro Cons.IH) simp
  have "str_join [SPACE] (map (\<lambda>x. x @ [DOT]) (x # y # ys)) = x @ DOT # (SPACE # ?rest)"
    by simp
  moreover have "str_split [DOT] (x @ DOT # (SPACE # ?rest)) = x # str_split [DOT] (SPACE # ?rest)"
    using Cons.prems by (intro str_split_char_append) simp
  moreover have "str_split [DOT] (SPACE # ?rest) = (SPACE # y) # map (\<lambda>x. SPACE # x) ys @ [[]]"
    by (simp only: str_split_char_Cons ih) simp
  ultimately show ?case by simp
qed

lemma sentences_of_fixed:
  assumes "\<forall>x \<in> set ss. nice x" and "ss \<noteq> []"
  shows "sentences_of (str_join [SPACE] (map (\<lambda>x. x @ [DOT]) ss)) = ss"
proof -
  from assms(2) obtain x xs where ss: "ss = x # xs" by (cases ss) auto
  have dots: "\<forall>x \<in> set (x # xs). DOT \<notin> set x" using assms(1) ss by (simp add: nice_def)
  have strip: "\<And>z. z \<in> set ss \<Longrightarrow> str_strip z = z \<and> str_strip (SPACE # z) = z \<and> z \<noteq> []"
    using assms(1) by (auto simp: nice_def str_strip_trimmed_id str_strip_space trimmed_def)
  have "map str_strip (map (\<lambda>x. SPACE # x) xs) = xs"
    using strip ss by (simp add: map_idI)
  moreover have "filter (\<lambda>x. x \<noteq> []) xs = xs"
    using strip ss by (simp add: filter_id_conv)
  moreover have "str_split [DOT] (str_join [SPACE] (map (\<lambda>x. x @ [DOT]) ss)) =
      x # map (\<lambda>x. SPACE # x) xs @ [[]]"
    unfolding ss using dots by (rule split_period_join)
  ultimately show ?thesis
    using strip [of x] ss by (simp add: sentences_of_filter)
qed

lemma str_split_ws_paragraphs:
  "str_split_ws (str_join [LF, LF] ys) = concat (map str_split_ws ys)"
proof (induction "[LF, LF]" ys rule: str_join.induct)
  case (3 y z zs)
  have "str_split_ws (y @ (LF # LF # str_join [LF, LF] (z # zs))) =
        str_split_ws y @ str_split_ws (LF # LF # str_join [LF, LF] (z # zs))"
    by (rule str_split_ws_append) simp
  with 3 show ?case by simp
qed simp_all

lemma normalize_ws_paragraphs:
  assumes "\<forall>y \<in> set ys. single_spaced y \<and> trimmed y"
  shows "normalize_ws (str_join [LF, LF] ys) = str_join [SPACE] ys"
proof -
  have ne: "\<forall>ws \<in> set (map str_split_ws ys). ws \<noteq> []"
  proof
    fix ws assume "ws \<in> set (map str_split_ws ys)"
    then obtain y where "y \<in> set ys" and ws: "ws = str_split_ws y" by auto
    with assms have "trimmed y" by simp
    then show "ws \<noteq> []" unfolding ws by (cases y) (simp_all add: trimmed_def)
  qed
  have "normalize_ws (str_join [LF, LF] ys) = str_join [SPACE] (concat (map str_split_ws ys))"
    by (simp add: normalize_ws_def str_split_ws_paragraphs)
  also have "\<dots> = str_join [SPACE] (map (str_join [SPACE]) (map str_split_ws ys))"
    using ne by (rule str_join_concat)
  also have "map (str_join [SPACE]) (map str_split_ws ys) = ys"
    using assms by (simp add: map_idI normalize_id)
  finally show ?thesis .
qed

lemma format_fixed_point:
  assumes nice: "\<forall>x \<in> set ss. nice x"
    and noesc: "\<not> has_esc (str_join [DOT, LF, LF] ss @ [DOT])"
  shows "format_transcript_text (str_join [DOT, LF, LF] ss @ [DOT]) = str_join [DOT, LF, LF] ss @ [DOT]"
proof (cases "ss = []")
  case True
  then show ?thesis
    by (simp add: format_transcript_text_def str_strip_def)
next
  case False
  let ?out = "str_join [DOT, LF, LF] ss @ [DOT]"
  let ?ys = "map (\<lambda>x. x @ [DOT]) ss"
  have out: "?out = str_join [LF, LF] ?ys" using False by (rule str_join_snoc_sep)
  have r: "str_replace [BACKSLASH, LOWER_N] [LF] ?out = ?out"
    using noesc by (rule replace_no_esc_id)
  have "\<forall>y \<in> set ?ys. single_spaced y \<and> trimmed y"
    using nice by (auto simp: nice_def trimmed_def single_spaced_append)
  then have "normalize_ws (str_join [LF, LF] ?ys) = str_join [SPACE] ?ys"
    by (rule normalize_ws_paragraphs)
  then have n: "normalize_ws ?out = str_join [SPACE] ?ys" by (simp only: out)
  have s: "sentences_of (str_join [SPACE] ?ys) = ss" using nice False by (rule sentences_of_fixed)
  show ?thesis
    by (simp only: format_transcript_text_alt r n s)
qed

section \<open>Properties of the text formatter\<close>

lemma no_backslash_no_esc: "BACKSLASH \<notin> set t \<Longrightarrow> \<not> has_esc t"
  by (induction t) (simp_all add: has_esc_Cons del: has_esc.simps(2,3))

lemma set_str_join: "set (str_join sep xs) \<subseteq> set sep \<union> \<Union> (set ` set xs)"
  by (induction sep xs rule: str_join.induct) auto

lemma set_normalize_ws: "set (normalize_ws t) \<subseteq> insert SPACE (set t)"
proof -
  have "\<Union> (set ` set (str_split_ws t)) \<subseteq> set t"
    using str_split_ws_sublist [of _ t] by (auto dest: sublist_set)
  with set_str_join [of "[SPACE]" "str_split_ws t"] show ?thesis
    unfolding normalize_ws_def by auto
qed

lemma sentences_of_blank:
  assumes "\<forall>c \<in> set t. isspace c \<or> c = DOT"
  shows "sentences_of t = []"
proof -
  have "str_strip p = []" if p: "p \<in> set (str_split [DOT] t)" for p
  proof (rule str_strip_spaces)
    have "set p \<subseteq> set t" using p by (intro sublist_set str_split_char_sublist)
    moreover have "DOT \<notin> set p" using p by (rule str_split_char_notin)
    ultimately show "\<forall>c \<in> set p. isspace c" using assms by blast
  qed
  then show ?thesis by (simp add: sentences_of_filter filter_empty_conv)
qed

lemma format_blank:
  assumes "\<forall>c \<in> set s. isspace c \<or> c = DOT"
  shows "format_transcript_text s = [DOT]"
proof -
  have "BACKSLASH \<notin> set s" using assms by (auto simp: isspace_def)
  then have r: "str_replace [BACKSLASH, LOWER_N] [LF] s = s"
    by (intro replace_no_esc_id no_backslash_no_esc)
  have "\<forall>c \<in> set (normalize_ws s). isspace c \<or> c = DOT"
    using assms set_normalize_ws [of s] by auto
  then have "sentences_of (normalize_ws s) = []" by (rule sentences_of_blank)
  then show ?thesis by (simp add: format_transcript_text_alt r)
qed

text \<open>
  C2, as the code has it: \<open>format_transcript_text\<close> applied to the empty string returns
  the one-character string \<open>.\<close> (not the empty string), and every input that consists
  only of whitespace and period characters produces that same output \<open>.\<close>.
\<close>

theorem format_empty_is_period:
  "format_transcript_text (cp []) = cp ''.'' \<and>
   ((\<forall>c \<in> set s. isspace c \<or> c = DOT) \<longrightarrow> format_transcript_text s = cp ''.'')"
  using format_blank [of s] format_blank [of "[]"] by (simp add: cp_def)

theorem format_empty_is_period_witness:
  "format_transcript_text (cp []) = cp ''.'' \<and>
   list_all (\<lambda>c. isspace c \<or> c = DOT) (cp '' . \<newline>.. '') \<and>
   format_transcript_text (cp '' . \<newline>.. '') = cp ''.''"
  using format_empty_is_period [of "cp '' . \<newline>.. ''"] by (simp add: cp_def isspace_def)

text \<open>
  C2 as stated fails: neither the empty string nor a string of whitespace and periods
  is mapped to the empty string.
\<close>

theorem format_empty_not_empty:
  "format_transcript_text (cp []) \<noteq> cp [] \<and> format_transcript_text (cp '' . . '') \<noteq> cp []"
  by (simp add: format_transcript_text_def cp_def)

text \<open>
  C7: \<open>format_transcript_text\<close> is idempotent: applying it to its own output returns
  that output, for every input string.
\<close>

theorem format_idempotent:
  "format_transcript_text (format_transcript_text s) = format_transcript_text s"
proof -
  let ?t = "normalize_ws (str_replace [BACKSLASH, LOWER_N] [LF] s)"
  let ?ss = "sentences_of ?t"
  have ne: "\<not> has_esc ?t" by (rule normalize_ws_no_esc) (rule replace_no_esc)
  have nice: "\<forall>x \<in> set ?ss. nice x"
    using normalize_ws_single_spaced by (blast intro: sentences_of_nice)
  have "\<forall>x \<in> set ?ss. \<not> has_esc x"
    using ne by (blast dest: sentences_of_sublist has_esc_sublist)
  then have "\<not> has_esc (str_join [DOT, LF, LF] ?ss)"
    by (rule has_esc_join) simp_all
  then have "\<not> has_esc (str_join [DOT, LF, LF] ?ss @ [DOT])"
    by (simp add: has_esc_append)
  with nice have "format_transcript_text (str_join [DOT, LF, LF] ?ss @ [DOT]) =
      str_join [DOT, LF, LF] ?ss @ [DOT]"
    by (rule format_fixed_point)
  then show ?thesis by (simp only: format_transcript_text_alt)
qed

text \<open>
  C9: \<open>format_transcript_text\<close> applied to \<open>Hello. World.\<close> returns the two sentences
  separated by exactly two newline characters, with the trailing period kept.
\<close>

theorem format_hello_world:
  "format_transcript_text (cp ''Hello. World.'') = cp ''Hello.\<newline>\<newline>World.''"
  by (simp add: format_transcript_text_def cp_def isspace_def str_strip_def)

text \<open>
  C10: for every input the output of \<open>format_transcript_text\<close> is non-empty and its last
  character is a period; the empty string, and every input of whitespace and periods
  only, yield the one-character output \<open>.\<close>.
\<close>

theorem format_ends_with_period:
  "format_transcript_text s \<noteq> [] \<and> last (format_transcript_text s) = DOT \<and>
   format_transcript_text [] = [DOT] \<and>
   ((\<forall>c \<in> set s. isspace c \<or> c = DOT) \<longrightarrow> format_transcript_text s = [DOT])"
  using format_blank [of s] format_blank [of "[]"] by (simp add: format_transcript_text_alt)

theorem format_ends_with_period_witness:
  "format_transcript_text (cp ''. . '') \<noteq> [] \<and> last (format_transcript_text (cp ''. . '')) = DOT \<and>
   format_transcript_text [] = [DOT] \<and>
   list_all (\<lambda>c. isspace c \<or> c = DOT) (cp ''. . '') \<and> format_transcript_text (cp ''. . '') = [DOT]"
  using format_ends_with_period [of "cp ''. . ''"] by (simp add: cp_def isspace_def)

section \<open>Properties of the storage keys and of the document renderer\<close>

lemma cp_append: "cp (a @ b) = cp a @ cp b"
  by (simp add: cp_def)

subsection \<open>create_filename\<close>

lemma splitext_foo_docx: "splitext (cp ''foo.docx'') = (cp ''foo'', cp ''.docx'')"
  by (simp add: splitext_def rfind_def cp_def)

lemma s3_transcript_key_ends_pdf:
  "suffix (cp ''.pdf'')
     (S3Handler_create_filename lower company_name event_date event_title (cp ''transcript'') original_filename)"
proof -
  obtain pre where "S3Handler_create_filename lower company_name event_date event_title
      (cp ''transcript'') original_filename = pre @ cp ''.pdf''"
    unfolding S3Handler_create_filename_def Let_def by (simp add: cp_def)
  then show ?thesis by (simp only: suffixI)
qed

text \<open>
  C1 on the code: \<open>S3Handler.create_filename\<close> ends every transcript key in \<open>.pdf\<close>
  (lemma \<open>s3_transcript_key_ends_pdf\<close>), but \<open>SupabaseStorageHandler.create_filename\<close>
  keeps the extension of the original file: for the document type \<open>transcript\<close> and the
  original filename \<open>foo.docx\<close> its key ends in \<open>_transcript.docx\<close> and not in \<open>.pdf\<close>,
  whatever the company, the date and the title.
\<close>

theorem supabase_transcript_key_keeps_extension:
  "suffix (cp ''_transcript.docx'')
     (SupabaseStorageHandler_create_filename lower company_name event_date event_title
        (cp ''transcript'') (cp ''foo.docx'')) \<and>
   \<not> suffix (cp ''.pdf'')
     (SupabaseStorageHandler_create_filename lower company_name event_date event_title
        (cp ''transcript'') (cp ''foo.docx''))"
proof -
  let ?key = "SupabaseStorageHandler_create_filename lower company_name event_date event_title
        (cp ''transcript'') (cp ''foo.docx'')"
  obtain pre where key: "?key = pre @ cp ''_transcript.docx''"
    unfolding SupabaseStorageHandler_create_filename_def Let_def splitext_foo_docx
    by (simp add: cp_def)
  have 1: "suffix (cp ''_transcript.docx'') ?key"
    unfolding key by (rule suffixI) simp
  have 2: "\<not> suffix (cp ''.pdf'') ?key"
  proof
    assume "suffix (cp ''.pdf'') ?key"
    then have "suffix (cp ''.pdf'') (pre @ cp ''_transcript.docx'')" by (simp only: key)
    then have "suffix (cp ''.pdf'') (cp ''_transcript.docx'')"
      by (auto simp: suffix_append cp_def)
    then show False by (simp add: cp_def suffix_def append_eq_Cons_conv)
  qed
  from 1 2 show ?thesis ..
qed

subsection \<open>create_pdf\<close>

text \<open>
  C6: for every company name, event title and event date, \<open>create_pdf\<close> called with an
  empty transcript text returns the empty byte sequence and makes no call to the layout
  engine.
\<close>

theorem create_pdf_empty_transcript:
  "create_pdf eng company_name event_title event_date (cp []) = (Inr [], [])"
  by (simp add: create_pdf_def cp_def)

lemma str_replace_char:
  "str_replace [c] new s = concat (map (\<lambda>x. if x = c then new else [x]) s)"
  by (induction s) auto

lemma escape_char_chain:
  "concat (map (\<lambda>x. if x = GREATER then cp ''&gt;'' else [x])
     (concat (map (\<lambda>x. if x = LESS then cp ''&lt;'' else [x])
        (if c = AMP then cp ''&amp;'' else [c])))) = spec_escape_char c"
  by (simp add: spec_escape_char_def cp_def)

lemma xml_escape_spec: "xml_escape s = concat (map spec_escape_char s)"
proof -
  have 1: "str_replace (cp ''&'') (cp ''&amp;'') s = concat (map (\<lambda>x. if x = AMP then cp ''&amp;'' else [x]) s)"
    using str_replace_char [of AMP "cp ''&amp;''" s] by (simp add: cp_def)
  have 2: "str_replace (cp ''<'') (cp ''&lt;'') t = concat (map (\<lambda>x. if x = LESS then cp ''&lt;'' else [x]) t)" for t
    using str_replace_char [of LESS "cp ''&lt;''" t] by (simp add: cp_def)
  have 3: "str_replace (cp ''>'') (cp ''&gt;'') t = concat (map (\<lambda>x. if x = GREATER then cp ''&gt;'' else [x]) t)" for t
    using str_replace_char [of GREATER "cp ''&gt;''" t] by (simp add: cp_def)
  show ?thesis
    unfolding xml_escape_def 1 2 3
    by (induction s) (simp_all add: escape_char_chain)
qed

lemma entity_ampersands_escape_char:
  "entity_ampersands (spec_escape_char c @ rest) = entity_ampersands rest"
  by (simp add: spec_escape_char_def cp_def)

lemma no_raw_markup_xml_escape: "no_raw_markup (xml_escape s)"
proof -
  have "LESS \<notin> set (concat (map spec_escape_char s))"
    by (induction s) (simp_all add: spec_escape_char_def cp_def)
  moreover have "GREATER \<notin> set (concat (map spec_escape_char s))"
    by (induction s) (simp_all add: spec_escape_char_def cp_def)
  moreover have "entity_ampersands (concat (map spec_escape_char s))"
    by (induction s) (simp_all add: entity_ampersands_escape_char del: entity_ampersands.simps(2))
  ultimately show ?thesis by (simp add: no_raw_markup_def xml_escape_spec)
qed

lemma add_paragraphs_calls:
  assumes "NewParagraph t style \<in> set (snd (add_paragraphs eng paras (story, calls)))"
  shows "NewParagraph t style \<in> set calls \<or>
         (\<exists>para \<in> set paras. str_strip para \<noteq> [] \<and> t = xml_escape (str_strip para))"
  using assms
proof (induction paras arbitrary: story calls)
  case Nil
  then show ?case by simp
next
  case (Cons para paras)
  show ?case
  proof (cases "str_strip para = []")
    case True
    with Cons.prems have "NewParagraph t style \<in> set (snd (add_paragraphs eng paras (story, calls)))"
      by simp
    from Cons.IH [OF this] show ?thesis by auto
  next
    case False
    let ?clean = "xml_escape (str_strip para)"
    show ?thesis
    proof (cases "paragraph_raises eng ?clean (cp ''CustomText'')")
      case None
      with False Cons.prems have "NewParagraph t style \<in> set (snd (add_paragraphs eng paras
          (story @ [Paragraph ?clean (cp ''CustomText''), Spacer 1 6],
           calls @ [NewParagraph ?clean (cp ''CustomText''), NewSpacer 1 6])))"
        by (simp add: Let_def)
      from Cons.IH [OF this] False show ?thesis by auto
    next
      case (Some e)
      with False Cons.prems have "NewParagraph t style \<in> set (snd (add_paragraphs eng paras
          (story, calls @ [NewParagraph ?clean (cp ''CustomText'')])))"
        by (simp add: Let_def)
      from Cons.IH [OF this] False show ?thesis by auto
    qed
  qed
qed

lemma create_pdf_paragraphs:
  assumes "NewParagraph t style \<in> set (snd (create_pdf eng company_name event_title event_date transcript_text))"
  shows "t = header_text company_name event_title event_date \<or>
         (\<exists>para \<in> set (str_split [LF, LF] transcript_text).
            str_strip para \<noteq> [] \<and> t = xml_escape (str_strip para))"
proof (cases "transcript_text = []")
  case True
  with assms show ?thesis by (simp add: create_pdf_def)
next
  case ne: False
  let ?h = "header_text company_name event_title event_date"
  let ?calls0 = "[NewSimpleDocTemplate, GetSampleStyleSheet,
                      NewParagraphStyle (cp ''CustomHeader''), NewParagraphStyle (cp ''CustomText''),
                      NewParagraph ?h (cp ''CustomHeader'')]"
  show ?thesis
  proof (cases "paragraph_raises eng ?h (cp ''CustomHeader'')")
    case (Some e)
    with assms ne show ?thesis by (simp add: create_pdf_def Let_def)
  next
    case None
    obtain story calls where ap: "add_paragraphs eng (str_split [LF, LF] transcript_text)
        ([Paragraph ?h (cp ''CustomHeader''), Spacer 1 30], ?calls0 @ [NewSpacer 1 30]) = (story, calls)"
      by (cases "add_paragraphs eng (str_split [LF, LF] transcript_text)
        ([Paragraph ?h (cp ''CustomHeader''), Spacer 1 30], ?calls0 @ [NewSpacer 1 30])") auto
    from assms ne None ap have "NewParagraph t style \<in> set calls"
      by (auto simp: create_pdf_def Let_def split: sum.splits)
    then have "NewParagraph t style \<in> set (snd (add_paragraphs eng (str_split [LF, LF] transcript_text)
        ([Paragraph ?h (cp ''CustomHeader''), Spacer 1 30], ?calls0 @ [NewSpacer 1 30])))"
      by (simp only: ap snd_conv)
    from add_paragraphs_calls [OF this] show ?thesis by auto
  qed
qed

lemma add_paragraphs_mono:
  "c \<in> set calls \<Longrightarrow> c \<in> set (snd (add_paragraphs eng paras (story, calls)))"
proof (induction paras arbitrary: story calls)
  case Nil
  then show ?case by simp
next
  case (Cons para paras)
  then show ?case
    by (cases "paragraph_raises eng (xml_escape (str_strip para)) (cp ''CustomText'')")
      (simp_all add: Let_def)
qed

lemma add_paragraphs_adds:
  assumes "para \<in> set paras" and "str_strip para \<noteq> []"
  shows "NewParagraph (xml_escape (str_strip para)) (cp ''CustomText'') \<in>
         set (snd (add_paragraphs eng paras (story, calls)))"
  using assms(1)
proof (induction paras arbitrary: story calls)
  case Nil
  then show ?case by simp
next
  case (Cons p paras)
  show ?case
  proof (cases "p = para")
    case True
    let ?c = "NewParagraph (xml_escape (str_strip para)) (cp ''CustomText'')"
    show ?thesis
    proof (cases "paragraph_raises eng (xml_escape (str_strip para)) (cp ''CustomText'')")
      case None
      have "?c \<in> set (snd (add_paragraphs eng paras
          (story @ [Paragraph (xml_escape (str_strip para)) (cp ''CustomText''), Spacer 1 6],
           calls @ [?c, NewSpacer 1 6])))"
        by (rule add_paragraphs_mono) simp
      with True None assms(2) show ?thesis by (simp add: Let_def)
    next
      case (Some e)
      have "?c \<in> set (snd (add_paragraphs eng paras (story, calls @ [?c])))"
        by (rule add_paragraphs_mono) simp
      with True Some assms(2) show ?thesis by (simp add: Let_def)
    qed
  next
    case False
    with Cons.prems have "para \<in> set paras" by simp
    then have ih: "\<And>story calls. NewParagraph (xml_escape (str_strip para)) (cp ''CustomText'') \<in>
        set (snd (add_paragraphs eng paras (story, calls)))"
      by (rule Cons.IH)
    show ?thesis
      by (cases "paragraph_raises eng (xml_escape (str_strip p)) (cp ''CustomText'')")
        (simp_all add: Let_def ih)
  qed
qed

lemma create_pdf_header_call:
  assumes "transcript_text \<noteq> []"
  shows "NewParagraph (header_text company_name event_title event_date) (cp ''CustomHeader'') \<in>
         set (snd (create_pdf eng company_name event_title event_date transcript_text))"
proof -
  let ?h = "header_text company_name event_title event_date"
  let ?calls0 = "[NewSimpleDocTemplate, GetSampleStyleSheet,
                      NewParagraphStyle (cp ''CustomHeader''), NewParagraphStyle (cp ''CustomText''),
                      NewParagraph ?h (cp ''CustomHeader'')]"
  show ?thesis
  proof (cases "paragraph_raises eng ?h (cp ''CustomHeader'')")
    case (Some e)
    with assms show ?thesis by (simp add: create_pdf_def Let_def)
  next
    case None
    obtain story calls where ap: "add_paragraphs eng (str_split [LF, LF] transcript_text)
        ([Paragraph ?h (cp ''CustomHeader''), Spacer 1 30], ?calls0 @ [NewSpacer 1 30]) = (story, calls)"
      by (cases "add_paragraphs eng (str_split [LF, LF] transcript_text)
        ([Paragraph ?h (cp ''CustomHeader''), Spacer 1 30], ?calls0 @ [NewSpacer 1 30])") auto
    have "NewParagraph ?h (cp ''CustomHeader'') \<in> set (snd (add_paragraphs eng (str_split [LF, LF] transcript_text)
        ([Paragraph ?h (cp ''CustomHeader''), Spacer 1 30], ?calls0 @ [NewSpacer 1 30])))"
      by (rule add_paragraphs_mono) simp
    then have "NewParagraph ?h (cp ''CustomHeader'') \<in> set calls" by (simp only: ap snd_conv)
    with assms None ap show ?thesis
      by (auto simp: create_pdf_def Let_def split: sum.splits)
  qed
qed

lemma create_pdf_body_calls:
  assumes "transcript_text \<noteq> []"
    and "paragraph_raises eng (header_text company_name event_title event_date) (cp ''CustomHeader'') = None"
    and "para \<in> set (str_split [LF, LF] transcript_text)" and "str_strip para \<noteq> []"
  shows "NewParagraph (xml_escape (str_strip para)) (cp ''CustomText'') \<in>
         set (snd (create_pdf eng company_name event_title event_date transcript_text))"
proof -
  let ?h = "header_text company_name event_title event_date"
  let ?calls0 = "[NewSimpleDocTemplate, GetSampleStyleSheet,
                      NewParagraphStyle (cp ''CustomHeader''), NewParagraphStyle (cp ''CustomText''),
                      NewParagraph ?h (cp ''CustomHeader'')]"
  obtain story calls where ap: "add_paragraphs eng (str_split [LF, LF] transcript_text)
      ([Paragraph ?h (cp ''CustomHeader''), Spacer 1 30], ?calls0 @ [NewSpacer 1 30]) = (story, calls)"
    by (cases "add_paragraphs eng (str_split [LF, LF] transcript_text)
      ([Paragraph ?h (cp ''CustomHeader''), Spacer 1 30], ?calls0 @ [NewSpacer 1 30])") auto
  have "NewParagraph (xml_escape (str_strip para)) (cp ''CustomText'') \<in>
      set (snd (add_paragraphs eng (str_split [LF, LF] transcript_text)
        ([Paragraph ?h (cp ''CustomHeader''), Spacer 1 30], ?calls0 @ [NewSpacer 1 30])))"
    using assms(3,4) by (rule add_paragraphs_adds)
  then have "NewParagraph (xml_escape (str_strip para)) (cp ''CustomText'') \<in> set calls"
    by (simp only: ap snd_conv)
  with assms(1,2) ap show ?thesis
    by (auto simp: create_pdf_def Let_def split: sum.splits)
qed

section \<open>Properties of the fetch operations\<close>

subsection \<open>The fetch operations never raise\<close>

lemma bnd_simps [simp]: "bnd (Inl e) f = Inl e" "bnd (Inr v) f = f v"
  by (simp_all add: bnd_def)

lemma process_transcript_returns:
  "\<exists>s. fst (process_transcript api_key isdigit net transcript_url transcripts) = Inr s"
  by (simp add: process_transcript_def split: prod.splits sum.splits)

lemma process_transcript_log:
  "snd (process_transcript api_key isdigit net transcript_url transcripts) =
   snd (process_transcript_body api_key isdigit net transcript_url transcripts)"
  by (simp add: process_transcript_def split: prod.splits sum.splits)

lemma get_company_events_returns: "\<exists>v. fst (get_company_events api_key net company_id event_type) = Inr v"
  by (simp add: get_company_events_def Let_def split: reply.splits sum.splits)

lemma get_company_info_returns: "\<exists>v. fst (get_company_info api_key net company_id) = Inr v"
  by (simp add: get_company_info_def Let_def split: reply.splits sum.splits)

lemma get_document_returns: "\<exists>v. fst (get_document net doc_url) = Inr v"
  by (simp add: get_document_def Let_def split: reply.splits sum.splits)

subsection \<open>Shape of the request log\<close>


lemma fetch_raw_str_log:
  "snd (fetch_raw api_key net log (JStr u)) =
     log @ [\<lparr>url = u,
              headers = (if sublist (cp ''api.quartr.com'') u then api_key_headers api_key else []),
              params = []\<rparr>]"
  by (simp add: fetch_raw_def Let_def split: reply.splits sum.splits)

lemma derived_url_first_party: "sublist (cp ''api.quartr.com'') (derived_url d)"
proof -
  have "derived_url d = cp ''https://'' @ cp ''api.quartr.com'' @ (cp ''/public/v1/transcripts/document/'' @ d)"
    by (simp add: derived_url_def cp_def)
  then show ?thesis by (simp only: sublist_appendI)
qed

lemma derived_url_not_Nil [simp]: "derived_url d \<noteq> []"
  by (simp add: derived_url_def cp_def)

lemma app_host_not_Nil [simp]: "cp ''app.quartr.com'' \<noteq> []"
  by (simp add: cp_def)

lemma app_url_path_skip:
  assumes "spec_derived_url isdigit transcript_url = None \<or> truthy_opt raw0"
  shows "app_url_path api_key isdigit net transcript_url raw0 = (Inr (Continue raw0), []) \<or>
         (\<exists>e. app_url_path api_key isdigit net transcript_url raw0 = (Inl e, []))"
  using assms
  by (auto simp: app_url_path_def spec_derived_url_def Let_def split: option.splits sum.splits if_splits)

lemma app_url_path_truthy:
  "truthy_opt raw0 \<Longrightarrow> app_url_path api_key isdigit net transcript_url raw0 = (Inr (Continue raw0), [])"
  by (simp add: app_url_path_def split: option.splits)

lemma app_url_path_fetch:
  assumes "spec_derived_url isdigit transcript_url = Some t" and "\<not> truthy_opt raw0"
  shows "\<exists>x. app_url_path api_key isdigit net transcript_url raw0 =
           (x, [\<lparr>url = t, headers = api_key_headers api_key, params = []\<rparr>]) \<and>
           (x = Inr (Continue (Some (JStr t))) \<or> (\<exists>e. x = Inl e) \<or> (\<exists>s. x = Inr (Return s)))"
  using assms
  by (auto simp: app_url_path_def spec_derived_url_def Let_def
      split: option.splits sum.splits reply.splits if_splits)

lemma spec_derived_url_first_party:
  "spec_derived_url isdigit transcript_url = Some t \<Longrightarrow> sublist (cp ''api.quartr.com'') t \<and> t \<noteq> []"
  by (auto simp: spec_derived_url_def derived_url_first_party split: option.splits sum.splits if_splits)

subsection \<open>The body of process_transcript, case by case\<close>

lemma body_select_error:
  "select_raw_url transcripts = Inl e \<Longrightarrow>
   process_transcript_body api_key isdigit net transcript_url transcripts = (Inl e, [])"
  by (simp add: process_transcript_body_def)

lemma body_app_error:
  "select_raw_url transcripts = Inr raw0 \<Longrightarrow>
   app_url_path api_key isdigit net transcript_url raw0 = (Inl e, log) \<Longrightarrow>
   process_transcript_body api_key isdigit net transcript_url transcripts = (Inl e, log)"
  by (simp add: process_transcript_body_def)

lemma body_app_return:
  "select_raw_url transcripts = Inr raw0 \<Longrightarrow>
   app_url_path api_key isdigit net transcript_url raw0 = (Inr (Return s), log) \<Longrightarrow>
   process_transcript_body api_key isdigit net transcript_url transcripts = (Inr s, log)"
  by (simp add: process_transcript_body_def)

lemma body_app_continue_falsy:
  "select_raw_url transcripts = Inr raw0 \<Longrightarrow>
   app_url_path api_key isdigit net transcript_url raw0 = (Inr (Continue raw), log) \<Longrightarrow>
   \<not> truthy_opt raw \<Longrightarrow>
   process_transcript_body api_key isdigit net transcript_url transcripts = (Inr [], log)"
  by (simp add: process_transcript_body_def truthy_opt_def split: option.splits)

lemma body_app_continue_truthy:
  "select_raw_url transcripts = Inr raw0 \<Longrightarrow>
   app_url_path api_key isdigit net transcript_url raw0 = (Inr (Continue (Some v)), log) \<Longrightarrow>
   truthy v \<Longrightarrow>
   process_transcript_body api_key isdigit net transcript_url transcripts =
     ((case fst (fetch_raw api_key net log v) of Some s \<Rightarrow> Inr s | None \<Rightarrow> Inr []),
      snd (fetch_raw api_key net log v))"
  by (simp add: process_transcript_body_def split: option.splits prod.splits)

subsection \<open>Credentials\<close>




subsection \<open>Resolution order\<close>

lemma select_raw_url_ok:
  assumes "transcripts_ok transcripts"
  shows "select_raw_url transcripts = Inr (map_option JStr (spec_field_url transcripts))"
proof -
  let ?live = "map_of transcripts (cp ''liveTranscripts'')"
  have fin: "finished_live_url transcripts =
      Inr (map_option JStr (nonempty_str (case ?live of Some (JObj l) \<Rightarrow> map_of l (cp ''finishedLiveTranscriptUrl'') | _ \<Rightarrow> None)))"
  proof (cases ?live)
    case None
    then show ?thesis by (simp add: finished_live_url_def nonempty_str_def)
  next
    case (Some lv)
    with assms obtain l where l: "lv = JObj l" and ok: "url_field_ok (map_of l (cp ''finishedLiveTranscriptUrl''))"
      by (cases lv) (auto simp: transcripts_ok_def)
    show ?thesis
    proof (cases "map_of l (cp ''finishedLiveTranscriptUrl'')")
      case None
      then have "cp ''finishedLiveTranscriptUrl'' \<notin> fst ` set l" by (simp add: map_of_eq_None_iff)
      with Some l None show ?thesis by (simp add: finished_live_url_def nonempty_str_def)
    next
      case (Some v)
      then have "cp ''finishedLiveTranscriptUrl'' \<in> fst ` set l"
        by (metis map_of_eq_None_iff option.distinct(1))
      with \<open>?live = Some lv\<close> l Some ok show ?thesis
        by (cases v) (simp_all add: finished_live_url_def nonempty_str_def url_field_ok_def)
    qed
  qed
  from assms have ok: "url_field_ok (map_of transcripts (cp ''transcriptUrl''))"
    by (simp add: transcripts_ok_def)
  show ?thesis
  proof (cases "map_of transcripts (cp ''transcriptUrl'')")
    case None
    then show ?thesis by (simp add: select_raw_url_def spec_field_url_def nonempty_str_def fin)
  next
    case (Some v)
    with ok show ?thesis
      by (cases v) (simp_all add: select_raw_url_def spec_field_url_def nonempty_str_def url_field_ok_def fin)
  qed
qed

lemma spec_field_url_not_Nil: "spec_field_url transcripts = Some u \<Longrightarrow> u \<noteq> []"
  by (auto simp: spec_field_url_def nonempty_str_def split: option.splits json.splits if_splits)

lemma resolved_field_log:
  assumes "transcripts_ok transcripts" and "spec_field_url transcripts = Some u"
  shows "snd (process_transcript api_key isdigit net transcript_url transcripts) =
     [\<lparr>url = u, headers = (if sublist (cp ''api.quartr.com'') u then api_key_headers api_key else []),
       params = []\<rparr>]"
proof -
  have sel: "select_raw_url transcripts = Inr (Some (JStr u))"
    using select_raw_url_ok [OF assms(1)] assms(2) by simp
  have u: "truthy (JStr u)" using spec_field_url_not_Nil [OF assms(2)] by simp
  then have "truthy_opt (Some (JStr u))" by (simp add: truthy_opt_def)
  then have app: "app_url_path api_key isdigit net transcript_url (Some (JStr u)) =
      (Inr (Continue (Some (JStr u))), [])"
    by (rule app_url_path_truthy)
  show ?thesis
    by (simp add: process_transcript_log body_app_continue_truthy [OF sel app u] fetch_raw_str_log)
qed

lemma resolved_none_log:
  assumes "transcripts_ok transcripts" and "spec_field_url transcripts = None"
    and "spec_derived_url isdigit transcript_url = None"
  shows "snd (process_transcript api_key isdigit net transcript_url transcripts) = []"
proof -
  have sel: "select_raw_url transcripts = Inr None"
    using select_raw_url_ok [OF assms(1)] assms(2) by simp
  from app_url_path_skip [of isdigit transcript_url None api_key net] assms(3)
  consider "app_url_path api_key isdigit net transcript_url None = (Inr (Continue None), [])"
    | e where "app_url_path api_key isdigit net transcript_url None = (Inl e, [])"
    by auto
  then show ?thesis
  proof cases
    case 1
    have "\<not> truthy_opt None" by (simp add: truthy_opt_def)
    from body_app_continue_falsy [OF sel 1 this] show ?thesis by (simp add: process_transcript_log)
  next
    case 2
    from body_app_error [OF sel 2] show ?thesis by (simp add: process_transcript_log)
  qed
qed

lemma resolved_derived_log:
  assumes "transcripts_ok transcripts" and "spec_field_url transcripts = None"
    and "spec_derived_url isdigit transcript_url = Some t"
  shows "\<exists>rest. snd (process_transcript api_key isdigit net transcript_url transcripts) =
           \<lparr>url = t, headers = api_key_headers api_key, params = []\<rparr> # rest \<and>
           (\<forall>rq \<in> set rest. url rq = t)"
proof -
  let ?rq = "\<lparr>url = t, headers = api_key_headers api_key, params = []\<rparr>"
  have sel: "select_raw_url transcripts = Inr None"
    using select_raw_url_ok [OF assms(1)] assms(2) by simp
  have f: "\<not> truthy_opt None" by (simp add: truthy_opt_def)
  from app_url_path_fetch [OF assms(3) f, of api_key net]
  obtain x where app: "app_url_path api_key isdigit net transcript_url None = (x, [?rq])"
    and x: "x = Inr (Continue (Some (JStr t))) \<or> (\<exists>e. x = Inl e) \<or> (\<exists>s. x = Inr (Return s))"
    by blast
  from x consider "x = Inr (Continue (Some (JStr t)))" | e where "x = Inl e" | s where "x = Inr (Return s)"
    by blast
  then show ?thesis
  proof cases
    case 1
    have tr: "truthy (JStr t)" using spec_derived_url_first_party [OF assms(3)] by simp
    from app 1 have app': "app_url_path api_key isdigit net transcript_url None =
        (Inr (Continue (Some (JStr t))), [?rq])" by simp
    show ?thesis
      by (simp add: process_transcript_log body_app_continue_truthy [OF sel app' tr] fetch_raw_str_log)
  next
    case 2
    with app have "app_url_path api_key isdigit net transcript_url None = (Inl e, [?rq])" by simp
    from body_app_error [OF sel this] show ?thesis by (simp add: process_transcript_log)
  next
    case 3
    with app have "app_url_path api_key isdigit net transcript_url None = (Inr (Return s), [?rq])" by simp
    from body_app_return [OF sel this] show ?thesis by (simp add: process_transcript_log)
  qed
qed

subsection \<open>Failing replies\<close>

lemma fetch_raw_failing:
  assumes "\<forall>n rq. failing (net n rq)"
  shows "fst (fetch_raw api_key net log raw) = None"
proof (cases raw)
  case (JStr u)
  let ?rq = "\<lparr>url = u, headers = (if sublist (cp ''api.quartr.com'') u then api_key_headers api_key else []),
      params = []\<rparr>"
  from assms have "failing (net (length log) ?rq)" by blast
  with JStr show ?thesis
    by (cases "net (length log) ?rq") (simp_all add: fetch_raw_def Let_def)
qed (simp_all add: fetch_raw_def split: sum.splits)

lemma process_api_response_failing: "status r \<noteq> 200 \<Longrightarrow> process_api_response r = Inr None"
  by (simp add: process_api_response_def)

lemma app_url_path_failing:
  assumes "\<forall>n rq. failing (net n rq)"
  shows "fst (app_url_path api_key isdigit net transcript_url raw0) \<noteq> Inr (Return s)"
proof -
  have "failing (net 0 rq)" for rq using assms by blast
  then have "\<And>rq r. net 0 rq = Responds r \<Longrightarrow> process_api_response r = Inr None"
    by (metis failing.simps(2) process_api_response_failing)
  then show ?thesis
    by (auto simp: app_url_path_def Let_def split: option.splits sum.splits reply.splits)
qed

lemma process_transcript_failing:
  assumes "\<forall>n rq. failing (net n rq)"
  shows "fst (process_transcript api_key isdigit net transcript_url transcripts) = Inr []"
proof -
  have fr: "fst (fetch_raw api_key net log v) = None" for log v
    using assms by (rule fetch_raw_failing)
  have ap: "fst (app_url_path api_key isdigit net transcript_url raw0) \<noteq> Inr (Return s)" for raw0 s
    using assms by (rule app_url_path_failing)
  have "fst (process_transcript_body api_key isdigit net transcript_url transcripts) = Inr [] \<or>
        (\<exists>e. fst (process_transcript_body api_key isdigit net transcript_url transcripts) = Inl e)"
  proof (cases "select_raw_url transcripts")
    case (Inl e)
    then show ?thesis by (simp add: body_select_error)
  next
    case (Inr raw0)
    obtain x log where app: "app_url_path api_key isdigit net transcript_url raw0 = (x, log)"
      by (cases "app_url_path api_key isdigit net transcript_url raw0") auto
    show ?thesis
    proof (cases x)
      case (Inl e)
      with Inr app show ?thesis by (simp add: body_app_error)
    next
      case xr: (Inr fl)
      show ?thesis
      proof (cases fl)
        case (Return s)
        with ap [of raw0 s] app xr show ?thesis by simp
      next
        case (Continue raw)
        show ?thesis
        proof (cases "truthy_opt raw")
          case False
          with Inr app xr Continue show ?thesis by (simp add: body_app_continue_falsy)
        next
          case True
          then obtain v where v: "raw = Some v" "truthy v"
            by (cases raw) (auto simp: truthy_opt_def)
          with Inr app xr Continue show ?thesis
            by (simp add: body_app_continue_truthy fr)
        qed
      qed
    qed
  qed
  then show ?thesis
    by (auto simp: process_transcript_def split: prod.splits sum.splits)
qed

lemma get_company_events_failing:
  assumes "\<forall>n rq. failing (net n rq)"
  shows "fst (get_company_events api_key net company_id event_type) = Inr (JObj [])"
proof -
  have "failing (net 0 rq)" for rq using assms by blast
  then have "\<And>rq r. net 0 rq = Responds r \<Longrightarrow> status r \<noteq> 200"
    by (metis failing.simps(2))
  then show ?thesis
    by (auto simp: get_company_events_def Let_def split: reply.splits sum.splits)
qed

lemma get_company_info_failing:
  assumes "\<forall>n rq. failing (net n rq)"
  shows "fst (get_company_info api_key net company_id) = Inr (JObj [])"
proof -
  have "failing (net 0 rq)" for rq using assms by blast
  then have "\<And>rq r. net 0 rq = Responds r \<Longrightarrow> status r \<noteq> 200"
    by (metis failing.simps(2))
  then show ?thesis
    by (auto simp: get_company_info_def Let_def split: reply.splits sum.splits)
qed

lemma get_document_failing:
  assumes "\<forall>n rq. failing (net n rq)"
  shows "fst (get_document net doc_url) = Inr None"
proof -
  have "failing (net 0 rq)" for rq using assms by blast
  then have "\<And>rq r. net 0 rq = Responds r \<Longrightarrow> status r \<noteq> 200"
    by (metis failing.simps(2))
  then show ?thesis
    by (auto simp: get_document_def Let_def split: reply.splits sum.splits)
qed

subsection \<open>Concrete runs\<close>

lemma document_id_example: "document_id_of app_page_url = Inr (cp ''123'')"
  by (simp add: document_id_of_def app_page_url_def cp_def)

lemma app_page_url_host: "sublist (cp ''app.quartr.com'') app_page_url"
proof -
  have e: "app_page_url = cp ''https://'' @ cp ''app.quartr.com'' @ cp ''/events/123/transcript''"
    by (simp add: app_page_url_def cp_def)
  show ?thesis unfolding e by (rule sublist_appendI)
qed

lemma app_page_url_not_Nil: "app_page_url \<noteq> []"
  by (simp add: app_page_url_def cp_def)

lemma digits_123: "str_isdigit ascii_digit (cp ''123'')"
  by (simp add: str_isdigit_def ascii_digit_def cp_def)

lemma derived_example:
  "spec_derived_url ascii_digit (Some app_page_url) = Some (derived_url (cp ''123''))"
  by (simp add: spec_derived_url_def app_page_url_host document_id_example digits_123)


lemma process_ok_response: "t \<noteq> [] \<Longrightarrow> process_api_response (ok_response t) = Inr (Some (format_transcript_text t))"
  by (simp add: process_api_response_def ok_response_def cp_def)

lemma process_raw_ok_response: "t \<noteq> [] \<Longrightarrow> process_raw_response (ok_response t) = Inr (Some (format_transcript_text t))"
  by (simp add: process_raw_response_def process_json_body_def ok_response_def cp_def)

lemma ok_response_status [simp]: "status (ok_response t) = 200"
  by (simp add: ok_response_def)

lemma format_Hi: "format_transcript_text (cp ''Hi'') = cp ''Hi.''"
  by (simp add: format_transcript_text_def cp_def isspace_def str_strip_def)

lemma null_live_run:
  "process_transcript (cp ''k'') ascii_digit (serving_network (cp ''Hi'')) (Some app_page_url)
     [(cp ''liveTranscripts'', JNull)] = (Inr [], [])"
  by (simp add: process_transcript_def process_transcript_body_def select_raw_url_def
      finished_live_url_def cp_def)

lemma app_run:
  "process_transcript (cp ''k'') ascii_digit (serving_network (cp ''Hi'')) (Some app_page_url) [] =
     (Inr (cp ''Hi.''),
      [\<lparr>url = derived_url (cp ''123''), headers = api_key_headers (cp ''k''), params = []\<rparr>])"
proof -
  have sel: "select_raw_url [] = Inr None"
    by (simp add: select_raw_url_def finished_live_url_def)
  have ne: "cp ''Hi'' \<noteq> []" by (simp add: cp_def)
  have app: "app_url_path (cp ''k'') ascii_digit (serving_network (cp ''Hi'')) (Some app_page_url) None =
      (Inr (Return (cp ''Hi.'')),
       [\<lparr>url = derived_url (cp ''123''), headers = api_key_headers (cp ''k''), params = []\<rparr>])"
    using app_page_url_host app_page_url_not_Nil
    by (simp add: app_url_path_def truthy_opt_def document_id_example digits_123 serving_network_def
        process_ok_response [OF ne] format_Hi)
  show ?thesis
    by (simp add: process_transcript_def body_app_return [OF sel app])
qed

lemma flaky_run:
  "process_transcript (cp ''k'') ascii_digit (flaky_network (cp ''Hi'')) (Some app_page_url) [] =
     (Inr (cp ''Hi.''),
      [\<lparr>url = derived_url (cp ''123''), headers = api_key_headers (cp ''k''), params = []\<rparr>,
       \<lparr>url = derived_url (cp ''123''), headers = api_key_headers (cp ''k''), params = []\<rparr>])"
proof -
  have sel: "select_raw_url [] = Inr None"
    by (simp add: select_raw_url_def finished_live_url_def)
  have ne: "cp ''Hi'' \<noteq> []" by (simp add: cp_def)
  have app: "app_url_path (cp ''k'') ascii_digit (flaky_network (cp ''Hi'')) (Some app_page_url) None =
      (Inr (Continue (Some (JStr (derived_url (cp ''123''))))),
       [\<lparr>url = derived_url (cp ''123''), headers = api_key_headers (cp ''k''), params = []\<rparr>])"
    using app_page_url_host app_page_url_not_Nil
    by (simp add: app_url_path_def truthy_opt_def document_id_example digits_123 flaky_network_def
        process_api_response_failing error_response_def)
  have tr: "truthy (JStr (derived_url (cp ''123'')))" by simp
  have fr: "fetch_raw (cp ''k'') (flaky_network (cp ''Hi''))
      [\<lparr>url = derived_url (cp ''123''), headers = api_key_headers (cp ''k''), params = []\<rparr>]
      (JStr (derived_url (cp ''123''))) =
      (Some (cp ''Hi.''),
       [\<lparr>url = derived_url (cp ''123''), headers = api_key_headers (cp ''k''), params = []\<rparr>,
        \<lparr>url = derived_url (cp ''123''), headers = api_key_headers (cp ''k''), params = []\<rparr>])"
    by (simp add: fetch_raw_def derived_url_first_party flaky_network_def
        process_raw_ok_response [OF ne] format_Hi ok_response_status Let_def)
  show ?thesis
    by (simp add: process_transcript_def body_app_continue_truthy [OF sel app tr] fr)
qed


lemma app_url_path_return:
  assumes "spec_derived_url isdigit transcript_url = Some t" and "\<not> truthy_opt raw0"
    and "net 0 \<lparr>url = t, headers = api_key_headers api_key, params = []\<rparr> = Responds r"
    and "process_api_response r = Inr (Some s)"
  shows "app_url_path api_key isdigit net transcript_url raw0 =
           (Inr (Return s), [\<lparr>url = t, headers = api_key_headers api_key, params = []\<rparr>])"
  using assms
  by (auto simp: app_url_path_def spec_derived_url_def Let_def
      split: option.splits sum.splits reply.splits if_splits)

lemma derived_success:
  assumes "transcripts_ok transcripts" and "spec_field_url transcripts = None"
    and "spec_derived_url isdigit transcript_url = Some t"
    and "net 0 \<lparr>url = t, headers = api_key_headers api_key, params = []\<rparr> = Responds r"
    and "process_api_response r = Inr (Some s)"
  shows "process_transcript api_key isdigit net transcript_url transcripts =
           (Inr s, [\<lparr>url = t, headers = api_key_headers api_key, params = []\<rparr>])"
proof -
  have sel: "select_raw_url transcripts = Inr None"
    using select_raw_url_ok [OF assms(1)] assms(2) by simp
  have f: "\<not> truthy_opt None" by (simp add: truthy_opt_def)
  have app: "app_url_path api_key isdigit net transcript_url None =
      (Inr (Return s), [\<lparr>url = t, headers = api_key_headers api_key, params = []\<rparr>])"
    using assms(3) f assms(4) assms(5) by (rule app_url_path_return)
  from body_app_return [OF sel app]
  show ?thesis by (simp add: process_transcript_def)
qed

lemma process_api_response_text:
  assumes "status r = 200" and "json_body r = Inr (JObj kvs)"
    and "map_of kvs (cp ''transcript'') = Some (JObj tkvs)"
    and "map_of tkvs (cp ''text'') = Some (JStr t)" and "t \<noteq> []"
  shows "process_api_response r = Inr (Some (format_transcript_text t))"
proof -
  from assms(3) have ne: "kvs \<noteq> []" by auto
  from assms(3) have "cp ''transcript'' \<in> fst ` set kvs"
    by (metis map_of_eq_None_iff option.distinct(1))
  with assms ne show ?thesis by (simp add: process_api_response_def)
qed

lemma derived_endpoint_reached:
  assumes sel: "select_raw_url transcripts = Inr None"
    and u: "transcript_url = Some u" "sublist (cp ''app.quartr.com'') u"
      "document_id_of u = Inr d" "str_isdigit isdigit d"
  shows "\<exists>rest. snd (process_transcript api_key isdigit net transcript_url transcripts) =
           \<lparr>url = cp ''https://api.quartr.com/public/v1/transcripts/document/'' @ d,
             headers = [(cp ''X-Api-Key'', api_key)], params = []\<rparr> # rest \<and>
           list_all (\<lambda>rq. url rq = cp ''https://api.quartr.com/public/v1/transcripts/document/'' @ d) rest"
    and "net 0 \<lparr>url = cp ''https://api.quartr.com/public/v1/transcripts/document/'' @ d,
                 headers = [(cp ''X-Api-Key'', api_key)], params = []\<rparr> = Responds r \<Longrightarrow>
         status r = 200 \<Longrightarrow> json_body r = Inr (JObj kvs) \<Longrightarrow>
         map_of kvs (cp ''transcript'') = Some (JObj tkvs) \<Longrightarrow>
         map_of tkvs (cp ''text'') = Some (JStr t) \<Longrightarrow> t \<noteq> [] \<Longrightarrow>
         process_transcript api_key isdigit net transcript_url transcripts =
           (Inr (format_transcript_text t),
            [\<lparr>url = cp ''https://api.quartr.com/public/v1/transcripts/document/'' @ d,
              headers = [(cp ''X-Api-Key'', api_key)], params = []\<rparr>])"
proof -
  let ?t = "cp ''https://api.quartr.com/public/v1/transcripts/document/'' @ d"
  let ?rq = "\<lparr>url = ?t, headers = [(cp ''X-Api-Key'', api_key)], params = []\<rparr>"
  have rq: "\<lparr>url = derived_url d, headers = api_key_headers api_key, params = []\<rparr> = ?rq"
    by (simp add: derived_url_def api_key_headers_def)
  from u have der: "spec_derived_url isdigit transcript_url = Some (derived_url d)"
    by (simp add: spec_derived_url_def)
  have f: "\<not> truthy_opt None" by (simp add: truthy_opt_def)
  from app_url_path_fetch [OF der f, of api_key net]
  obtain x where app: "app_url_path api_key isdigit net transcript_url None = (x, [?rq])"
    and x: "x = Inr (Continue (Some (JStr (derived_url d)))) \<or> (\<exists>e. x = Inl e) \<or> (\<exists>s. x = Inr (Return s))"
    unfolding rq by blast
  from x consider "x = Inr (Continue (Some (JStr (derived_url d))))" | e where "x = Inl e"
    | s where "x = Inr (Return s)"
    by blast
  then show "\<exists>rest. snd (process_transcript api_key isdigit net transcript_url transcripts) =
      ?rq # rest \<and> list_all (\<lambda>rq. url rq = ?t) rest"
  proof cases
    case 1
    have tr: "truthy (JStr (derived_url d))" by simp
    from app 1 have app': "app_url_path api_key isdigit net transcript_url None =
        (Inr (Continue (Some (JStr (derived_url d)))), [?rq])" by simp
    show ?thesis
      by (simp add: process_transcript_log body_app_continue_truthy [OF sel app' tr] fetch_raw_str_log
          derived_url_def)
  next
    case 2
    with app have "app_url_path api_key isdigit net transcript_url None = (Inl e, [?rq])" by simp
    from body_app_error [OF sel this] show ?thesis by (simp add: process_transcript_log)
  next
    case 3
    with app have "app_url_path api_key isdigit net transcript_url None = (Inr (Return s), [?rq])" by simp
    from body_app_return [OF sel this] show ?thesis by (simp add: process_transcript_log)
  qed
  assume net: "net 0 ?rq = Responds r" and r: "status r = 200" "json_body r = Inr (JObj kvs)"
    "map_of kvs (cp ''transcript'') = Some (JObj tkvs)" "map_of tkvs (cp ''text'') = Some (JStr t)" "t \<noteq> []"
  from r have resp: "process_api_response r = Inr (Some (format_transcript_text t))"
    by (rule process_api_response_text)
  from net have net': "net 0 \<lparr>url = derived_url d, headers = api_key_headers api_key, params = []\<rparr> = Responds r"
    by (simp only: rq)
  have "app_url_path api_key isdigit net transcript_url None =
      (Inr (Return (format_transcript_text t)),
       [\<lparr>url = derived_url d, headers = api_key_headers api_key, params = []\<rparr>])"
    using der f net' resp by (rule app_url_path_return)
  then have "app_url_path api_key isdigit net transcript_url None =
      (Inr (Return (format_transcript_text t)), [?rq])" by (simp only: rq)
  from body_app_return [OF sel this]
  show "process_transcript api_key isdigit net transcript_url transcripts =
      (Inr (format_transcript_text t), [?rq])"
    by (simp add: process_transcript_def)
qed

lemma resolution_priority:
  assumes "transcripts_ok transcripts"
  shows
    "case spec_resolved_url isdigit transcript_url transcripts of
        None \<Rightarrow> snd (process_transcript api_key isdigit net transcript_url transcripts) = []
      | Some target \<Rightarrow>
          (\<exists>rest. snd (process_transcript api_key isdigit net transcript_url transcripts) =
               \<lparr>url = target,
                 headers = (if sublist (cp ''api.quartr.com'') target then [(cp ''X-Api-Key'', api_key)] else []),
                 params = []\<rparr> # rest \<and>
             list_all (\<lambda>rq. url rq = target) rest)"
proof (cases "spec_field_url transcripts")
  case (Some v)
  with resolved_field_log [OF assms Some, of api_key isdigit net transcript_url]
  show ?thesis by (simp add: spec_resolved_url_def api_key_headers_def)
next
  case None
  show ?thesis
  proof (cases "spec_derived_url isdigit transcript_url")
    case n: None
    with None resolved_none_log [OF assms None n, of api_key net]
    show ?thesis by (simp add: spec_resolved_url_def)
  next
    case (Some t)
    with None resolved_derived_log [OF assms None Some, of api_key net]
      spec_derived_url_first_party [OF Some]
    show ?thesis by (auto simp: spec_resolved_url_def list_all_iff api_key_headers_def)
  qed
qed

lemma select_raw_url_expected_shape:
  "transcripts_ok transcripts \<Longrightarrow> spec_field_url transcripts = None \<Longrightarrow>
   select_raw_url transcripts = Inr None"
  using select_raw_url_ok [of transcripts] by simp

text \<open>
  C3 on the code. The page URL \<open>https://app.quartr.com/events/123/transcript\<close> has the
  numeric second-to-last segment \<open>123\<close>, and the network serves a transcript to every
  request. With \<open>liveTranscripts\<close> present but null, so that neither URL field is
  populated, \<open>'finishedLiveTranscriptUrl' in None\<close> raises: \<open>process_transcript\<close> returns
  the empty string and sends no request. With the entry absent, the same call fetches the
  derived endpoint with the API key and returns the formatted transcript, as the claim
  says (lemma \<open>derived_endpoint_reached\<close> has this for every input where the lookup of the
  two fields ends without a URL).
\<close>

theorem null_live_transcripts_skips_derived_endpoint:
  "process_transcript (cp ''k'') ascii_digit (serving_network (cp ''Hi''))
     (Some (cp ''https://app.quartr.com/events/123/transcript''))
     [(cp ''liveTranscripts'', JNull)] = (Inr [], []) \<and>
   process_transcript (cp ''k'') ascii_digit (serving_network (cp ''Hi''))
     (Some (cp ''https://app.quartr.com/events/123/transcript'')) [] =
     (Inr (cp ''Hi.''),
      [\<lparr>url = cp ''https://api.quartr.com/public/v1/transcripts/document/123'',
        headers = [(cp ''X-Api-Key'', cp ''k'')], params = []\<rparr>])"
proof -
  have d: "derived_url (cp ''123'') = cp ''https://api.quartr.com/public/v1/transcripts/document/123''"
    by (simp add: derived_url_def cp_def)
  have h: "api_key_headers (cp ''k'') = [(cp ''X-Api-Key'', cp ''k'')]"
    by (simp add: api_key_headers_def)
  from null_live_run app_run show ?thesis
    unfolding app_page_url_def d h by blast
qed

text \<open>
  C5, as the code has it. When every reply of the network is a failure (the request raises
  or the status is not 200), \<open>get_company_events\<close> and \<open>get_company_info\<close> return the
  empty dict, \<open>get_document\<close> returns \<open>None\<close> and \<open>process_transcript\<close> returns the empty
  string; and whatever the network does, none of the four raises.
\<close>

theorem fetch_failures_degrade:
  "((\<forall>n rq. failing (net n rq)) \<longrightarrow>
      fst (get_company_events api_key net company_id event_type) = Inr (JObj []) \<and>
      fst (get_company_info api_key net company_id) = Inr (JObj []) \<and>
      fst (get_document net doc_url) = Inr None \<and>
      fst (process_transcript api_key isdigit net transcript_url transcripts) = Inr []) \<and>
   (\<exists>v. fst (get_company_events api_key net company_id event_type) = Inr v) \<and>
   (\<exists>v. fst (get_company_info api_key net company_id) = Inr v) \<and>
   (\<exists>v. fst (get_document net doc_url) = Inr v) \<and>
   (\<exists>v. fst (process_transcript api_key isdigit net transcript_url transcripts) = Inr v)"
  using get_company_events_failing [of net api_key company_id event_type]
    get_company_info_failing [of net api_key company_id]
    get_document_failing [of net doc_url]
    process_transcript_failing [of net api_key isdigit transcript_url transcripts]
    get_company_events_returns [of api_key net company_id event_type]
    get_company_info_returns [of api_key net company_id]
    get_document_returns [of net doc_url]
    process_transcript_returns [of api_key isdigit net transcript_url transcripts]
  by blast

theorem fetch_failures_degrade_witness:
  "(\<forall>n rq. failing (not_found_network n rq)) \<and>
   fst (get_company_events (cp ''k'') not_found_network (cp ''42'') (cp ''all'')) = Inr (JObj []) \<and>
   fst (get_company_info (cp ''k'') not_found_network (cp ''42'')) = Inr (JObj []) \<and>
   fst (get_document not_found_network cdn_url) = Inr None \<and>
   fst (process_transcript (cp ''k'') ascii_digit not_found_network (Some app_page_url) []) = Inr []"
proof -
  have f: "\<forall>n rq. failing (not_found_network n rq)"
    by (simp add: not_found_network_def error_response_def)
  with fetch_failures_degrade [where net = not_found_network and api_key = "cp ''k''"
      and company_id = "cp ''42''" and event_type = "cp ''all''" and doc_url = cdn_url
      and isdigit = ascii_digit and transcript_url = "Some app_page_url" and transcripts = "[]"]
  show ?thesis by blast
qed

text \<open>
  C5 as stated fails for \<open>process_transcript\<close>: on the app URL path a reply with status
  500 to the first request is followed by a second request for the same endpoint, and
  when that one succeeds the result is the transcript, not the empty string.
\<close>

theorem failed_first_fetch_is_retried:
  "flaky_network (cp ''Hi'') 0
     \<lparr>url = derived_url (cp ''123''), headers = api_key_headers (cp ''k''), params = []\<rparr> =
     Responds (error_response 500) \<and>
   status (error_response 500) \<noteq> 200 \<and>
   process_transcript (cp ''k'') ascii_digit (flaky_network (cp ''Hi'')) (Some app_page_url) [] =
     (Inr (cp ''Hi.''),
      [\<lparr>url = derived_url (cp ''123''), headers = api_key_headers (cp ''k''), params = []\<rparr>,
       \<lparr>url = derived_url (cp ''123''), headers = api_key_headers (cp ''k''), params = []\<rparr>]) \<and>
   cp ''Hi.'' \<noteq> []"
  using flaky_run by (simp add: flaky_network_def error_response_def cp_def)




text \<open>
  C4. The three replacements of \<open>create_pdf\<close> replace each of \<open>&\<close>, \<open><\<close>, \<open>>\<close> by its
  entity exactly once (the ampersands of the entities are not escaped again), so an
  escaped text has no raw \<open><\<close> or \<open>>\<close> and each of its ampersands starts an entity. Every
  paragraph text handed to the layout engine is either the header, which is the fixed
  template around the escaped company name, the escaped event title and the date, or
  the escaped form of a stripped body paragraph. For a non-empty transcript that header
  is handed over, and so is, once the header paragraph is built, the escaped form of
  every non-blank body paragraph.
\<close>

theorem create_pdf_escapes_markup:
  "xml_escape s = concat (map spec_escape_char s) \<and>
   no_raw_markup (xml_escape s) \<and>
   no_raw_markup (xml_escape company_name) \<and>
   no_raw_markup (xml_escape event_title) \<and>
   (NewParagraph t style \<in>
      set (snd (create_pdf eng company_name event_title event_date transcript_text)) \<longrightarrow>
      t = header_before_company @ xml_escape company_name @ header_between @
            xml_escape event_title @ header_after_title event_date \<or>
      (\<exists>para \<in> set (str_split [LF, LF] transcript_text).
         str_strip para \<noteq> [] \<and> t = xml_escape (str_strip para) \<and>
         no_raw_markup (xml_escape (str_strip para)))) \<and>
   (transcript_text \<noteq> [] \<longrightarrow>
      NewParagraph
        (header_before_company @ xml_escape company_name @ header_between @
           xml_escape event_title @ header_after_title event_date)
        (cp ''CustomHeader'') \<in>
      set (snd (create_pdf eng company_name event_title event_date transcript_text))) \<and>
   (transcript_text \<noteq> [] \<and>
    paragraph_raises eng
      (header_before_company @ xml_escape company_name @ header_between @
         xml_escape event_title @ header_after_title event_date)
      (cp ''CustomHeader'') = None \<and>
    para \<in> set (str_split [LF, LF] transcript_text) \<and> str_strip para \<noteq> [] \<longrightarrow>
      NewParagraph (xml_escape (str_strip para)) (cp ''CustomText'') \<in>
      set (snd (create_pdf eng company_name event_title event_date transcript_text)))"
proof -
  have h: "header_text company_name event_title event_date =
      header_before_company @ xml_escape company_name @ header_between @
        xml_escape event_title @ header_after_title event_date"
    by (simp add: header_text_def)
  show ?thesis
    using xml_escape_spec [of s] no_raw_markup_xml_escape
      create_pdf_paragraphs [of t style eng company_name event_title event_date transcript_text]
      create_pdf_header_call [where transcript_text = transcript_text and eng = eng
        and company_name = company_name and event_title = event_title and event_date = event_date]
      create_pdf_body_calls [where transcript_text = transcript_text and eng = eng
        and company_name = company_name and event_title = event_title and event_date = event_date
        and para = para]
    unfolding h by blast
qed

theorem create_pdf_escapes_markup_witness:
  "NewParagraph
     (header_before_company @ cp ''A&amp;B'' @ header_between @ cp ''Q&lt;1&gt;'' @
        header_after_title (cp ''2024-01-15''))
     (cp ''CustomHeader'') \<in>
     set (snd (create_pdf plain_engine (cp ''A&B'') (cp ''Q<1>'') (cp ''2024-01-15'') (cp '' a < b''))) \<and>
   NewParagraph (cp ''a &lt; b'') (cp ''CustomText'') \<in>
     set (snd (create_pdf plain_engine (cp ''A&B'') (cp ''Q<1>'') (cp ''2024-01-15'') (cp '' a < b''))) \<and>
   xml_escape (cp ''A&B'') = cp ''A&amp;B'' \<and> xml_escape (cp ''Q<1>'') = cp ''Q&lt;1&gt;'' \<and>
   xml_escape (cp ''a < b'') = cp ''a &lt; b'' \<and>
   no_raw_markup (cp ''A&amp;B'') \<and> no_raw_markup (cp ''Q&lt;1&gt;'') \<and> no_raw_markup (cp ''a &lt; b'') \<and>
   cp '' a < b'' \<in> set (str_split [LF, LF] (cp '' a < b'')) \<and>
   str_strip (cp '' a < b'') = cp ''a < b''"
proof -
  have e1: "xml_escape (cp ''A&B'') = cp ''A&amp;B''" by (simp add: xml_escape_def cp_def)
  have e2: "xml_escape (cp ''Q<1>'') = cp ''Q&lt;1&gt;''" by (simp add: xml_escape_def cp_def)
  have e3: "xml_escape (cp ''a < b'') = cp ''a &lt; b''" by (simp add: xml_escape_def cp_def)
  have sp: "cp '' a < b'' \<in> set (str_split [LF, LF] (cp '' a < b''))" by (simp add: cp_def)
  have st: "str_strip (cp '' a < b'') = cp ''a < b''"
    by (simp add: cp_def str_strip_def isspace_def)
  have ne: "cp '' a < b'' \<noteq> []" by (simp add: cp_def)
  have ne': "str_strip (cp '' a < b'') \<noteq> []" unfolding st by (simp add: cp_def)
  have pr: "paragraph_raises plain_engine
      (header_before_company @ xml_escape (cp ''A&B'') @ header_between @
         xml_escape (cp ''Q<1>'') @ header_after_title (cp ''2024-01-15''))
      (cp ''CustomHeader'') = None"
    by (simp add: plain_engine_def)
  note th = create_pdf_escapes_markup [where s = "cp ''a < b''" and eng = plain_engine
      and company_name = "cp ''A&B''" and event_title = "cp ''Q<1>''"
      and event_date = "cp ''2024-01-15''" and transcript_text = "cp '' a < b''"
      and para = "cp '' a < b''"]
  from th ne have "NewParagraph
     (header_before_company @ xml_escape (cp ''A&B'') @ header_between @ xml_escape (cp ''Q<1>'') @
        header_after_title (cp ''2024-01-15''))
     (cp ''CustomHeader'') \<in>
     set (snd (create_pdf plain_engine (cp ''A&B'') (cp ''Q<1>'') (cp ''2024-01-15'') (cp '' a < b'')))"
    by blast
  then have hd: "NewParagraph
     (header_before_company @ cp ''A&amp;B'' @ header_between @ cp ''Q&lt;1&gt;'' @
        header_after_title (cp ''2024-01-15''))
     (cp ''CustomHeader'') \<in>
     set (snd (create_pdf plain_engine (cp ''A&B'') (cp ''Q<1>'') (cp ''2024-01-15'') (cp '' a < b'')))"
    by (simp only: e1 e2)
  from th ne pr sp ne' have "NewParagraph (xml_escape (str_strip (cp '' a < b''))) (cp ''CustomText'') \<in>
     set (snd (create_pdf plain_engine (cp ''A&B'') (cp ''Q<1>'') (cp ''2024-01-15'') (cp '' a < b'')))"
    by blast
  then have bd: "NewParagraph (cp ''a &lt; b'') (cp ''CustomText'') \<in>
     set (snd (create_pdf plain_engine (cp ''A&B'') (cp ''Q<1>'') (cp ''2024-01-15'') (cp '' a < b'')))"
    by (simp only: st e3)
  from th have "no_raw_markup (xml_escape (cp ''A&B''))" "no_raw_markup (xml_escape (cp ''Q<1>''))"
    "no_raw_markup (xml_escape (cp ''a < b''))" by blast+
  then have nr: "no_raw_markup (cp ''A&amp;B'')" "no_raw_markup (cp ''Q&lt;1&gt;'')"
    "no_raw_markup (cp ''a &lt; b'')" by (simp_all only: e1 e2 e3)
  from hd bd e1 e2 e3 nr sp st show ?thesis by blast
qed

end
